theory Spec2Isabelle
  imports Main "HOL-Library.AList"
begin

section \<open>Machine integers, byte strings and time\<close>

text \<open>
  Go's \<open>int64\<close> (and \<open>time.Duration\<close>, which is an \<open>int64\<close> count of nanoseconds) is
  modelled as \<open>int\<close> with the two's-complement wrap-around written out at every
  addition, subtraction and multiplication of the source that can leave the range.
\<close>

definition i64 :: "int \<Rightarrow> int" where
  "i64 x = (x + 2 ^ 63) mod 2 ^ 64 - 2 ^ 63"

definition is_i64 :: "int \<Rightarrow> bool" where
  "is_i64 x \<longleftrightarrow> - (2 ^ 63) \<le> x \<and> x < 2 ^ 63"

type_synonym bytes = "char list"

text \<open>
  \<open>time.Time\<close> is an instant, here a number of nanoseconds on an unbounded axis.
  \<open>time.Since(t)\<close> is \<open>time.Now().Sub(t)\<close>; \<open>Sub\<close> saturates at the largest and
  smallest \<open>Duration\<close>. The clock reading \<open>now\<close> is an explicit argument.
\<close>

definition Since :: "int \<Rightarrow> int \<Rightarrow> int" where
  "Since now t = max (- (2 ^ 63)) (min (2 ^ 63 - 1) (now - t))"

section \<open>cache/cache.go: the cache entry\<close>

text \<open>
  \<open>http.Header\<close> is \<open>map[string][]string\<close>. It is modelled as an association list with
  pairwise distinct keys; the order of the pairs is the order in which a \<open>range\<close> loop
  visits them (Go leaves that order unspecified). \<open>len(h)\<close> is the number of map
  entries, that is, of header names.
\<close>

type_synonym Header = "(string \<times> string list) list"

record ResponseCacheEntry =
  StatusCode :: int
  Headers :: Header
  Body :: bytes
  CreatedAt :: int
  TTL :: int
  SWR :: int

definition Size :: "ResponseCacheEntry \<Rightarrow> int" where
  "Size e =
     (let bodySize = int (length (Body e));
          headerSize = int (length (Headers e) * 30)
      in bodySize + headerSize)"

definition IsStale :: "ResponseCacheEntry \<Rightarrow> int \<Rightarrow> bool" where
  "IsStale e now \<longleftrightarrow> Since now (CreatedAt e) > TTL e"

definition IsRotten :: "ResponseCacheEntry \<Rightarrow> int \<Rightarrow> bool" where
  "IsRotten e now \<longleftrightarrow> Since now (CreatedAt e) > i64 (TTL e + SWR e)"

text \<open>
  The number of key/value pairs of a header multimap, counting every value of every
  name: the count the specification of \<open>Size\<close> speaks of.
\<close>

definition header_pairs :: "Header \<Rightarrow> nat" where
  "header_pairs h = sum_list (map (\<lambda>(k, vs). length vs) h)"

text \<open>Concrete entries used to evaluate the definitions.\<close>

definition entry_negative_swr :: ResponseCacheEntry where
  "entry_negative_swr =
     \<lparr>StatusCode = 200, Headers = [], Body = [], CreatedAt = 0, TTL = 10, SWR = - 5\<rparr>"

definition entry_ten_five :: ResponseCacheEntry where
  "entry_ten_five =
     \<lparr>StatusCode = 200, Headers = [], Body = [], CreatedAt = 0, TTL = 10, SWR = 5\<rparr>"

definition entry_two_cookies :: ResponseCacheEntry where
  "entry_two_cookies =
     \<lparr>StatusCode = 200, Headers = [(''Set-Cookie'', [''a'', ''b''])], Body = ''hi'',
      CreatedAt = 0, TTL = 10, SWR = 5\<rparr>"

section \<open>net/http and strings: the library functions the code calls\<close>

text \<open>
  The methods of \<open>http.Header\<close> canonicalise the key they are given with
  \<open>textproto.CanonicalMIMEHeaderKey\<close>: a key made of token bytes only gets an upper-case
  first letter and an upper-case letter after every hyphen, all other letters lower-case;
  any other key is left as it is.
\<close>

definition validHeaderFieldByte :: "char \<Rightarrow> bool" where
  "validHeaderFieldByte c =
     (let n = (of_char c :: nat)
      in (48 \<le> n \<and> n \<le> 57) \<or> (65 \<le> n \<and> n \<le> 90) \<or> (97 \<le> n \<and> n \<le> 122)
         \<or> n \<in> {33, 35, 36, 37, 38, 39, 42, 43, 45, 46, 94, 95, 96, 124, 126})"

definition canonByte :: "bool \<Rightarrow> char \<Rightarrow> char" where
  "canonByte upper c =
     (let n = (of_char c :: nat)
      in if upper \<and> 97 \<le> n \<and> n \<le> 122 then char_of (n - 32)
         else if \<not> upper \<and> 65 \<le> n \<and> n \<le> 90 then char_of (n + 32)
         else c)"

fun canonFrom :: "bool \<Rightarrow> string \<Rightarrow> string" where
  "canonFrom upper [] = []"
| "canonFrom upper (c # cs) =
     (let c' = canonByte upper c in c' # canonFrom (c' = CHR ''-'') cs)"

definition CanonicalMIMEHeaderKey :: "string \<Rightarrow> string" where
  "CanonicalMIMEHeaderKey s = (if list_all validHeaderFieldByte s then canonFrom True s else s)"

text \<open>
  \<open>Add\<close> appends a value to the values of the key, \<open>Set\<close> replaces them by one value,
  \<open>Del\<close> removes the key, \<open>Get\<close> returns the first value of the key or the empty
  string, \<open>Clone\<close> copies the map (a value here, so the copy is the map itself).
\<close>

definition Header_values :: "Header \<Rightarrow> string \<Rightarrow> string list" where
  "Header_values h k = (case map_of h k of None \<Rightarrow> [] | Some vs \<Rightarrow> vs)"

definition Header_Add :: "Header \<Rightarrow> string \<Rightarrow> string \<Rightarrow> Header" where
  "Header_Add h k v =
     (let key = CanonicalMIMEHeaderKey k in AList.update key (Header_values h key @ [v]) h)"

definition Header_Set :: "Header \<Rightarrow> string \<Rightarrow> string \<Rightarrow> Header" where
  "Header_Set h k v = AList.update (CanonicalMIMEHeaderKey k) [v] h"

definition Header_Del :: "Header \<Rightarrow> string \<Rightarrow> Header" where
  "Header_Del h k = AList.delete (CanonicalMIMEHeaderKey k) h"

definition Header_Get :: "Header \<Rightarrow> string \<Rightarrow> string" where
  "Header_Get h k =
     (case Header_values h (CanonicalMIMEHeaderKey k) of [] \<Rightarrow> [] | v # _ \<Rightarrow> v)"

definition Header_Clone :: "Header \<Rightarrow> Header" where
  "Header_Clone h = h"

text \<open>
  \<open>strings.Split(s, ",")\<close> cuts at every separator (one more piece than separators).
\<close>

fun Split :: "string \<Rightarrow> char \<Rightarrow> string list" where
  "Split [] sep = [[]]"
| "Split (c # cs) sep =
     (if c = sep then [] # Split cs sep
      else (case Split cs sep of [] \<Rightarrow> [[c]] | p # ps \<Rightarrow> (c # p) # ps))"

text \<open>
  \<open>strings.TrimSpace\<close> drops the leading and the trailing runes for which
  \<open>unicode.IsSpace\<close> holds. A Go string is a byte sequence; \<open>spaceRunes\<close> lists the
  UTF-8 encodings of those runes: tab, line feed, vertical tab, form feed, carriage
  return, space, U+0085, U+00A0, U+1680, U+2000 to U+200A, U+2028, U+2029, U+202F,
  U+205F and U+3000. \<open>dropRunes qs s\<close> removes from the front of \<open>s\<close>, as long as there
  is one, a byte sequence of \<open>qs\<close>.
\<close>

definition spaceRunes :: "string list" where
  "spaceRunes =
     [[CHR 0x09], [CHR 0x0A], [CHR 0x0B], [CHR 0x0C], [CHR 0x0D], [CHR 0x20],
      [CHR 0xC2, CHR 0x85], [CHR 0xC2, CHR 0xA0], [CHR 0xE1, CHR 0x9A, CHR 0x80],
      [CHR 0xE2, CHR 0x80, CHR 0x80], [CHR 0xE2, CHR 0x80, CHR 0x81],
      [CHR 0xE2, CHR 0x80, CHR 0x82], [CHR 0xE2, CHR 0x80, CHR 0x83],
      [CHR 0xE2, CHR 0x80, CHR 0x84], [CHR 0xE2, CHR 0x80, CHR 0x85],
      [CHR 0xE2, CHR 0x80, CHR 0x86], [CHR 0xE2, CHR 0x80, CHR 0x87],
      [CHR 0xE2, CHR 0x80, CHR 0x88], [CHR 0xE2, CHR 0x80, CHR 0x89],
      [CHR 0xE2, CHR 0x80, CHR 0x8A], [CHR 0xE2, CHR 0x80, CHR 0xA8],
      [CHR 0xE2, CHR 0x80, CHR 0xA9], [CHR 0xE2, CHR 0x80, CHR 0xAF],
      [CHR 0xE2, CHR 0x81, CHR 0x9F], [CHR 0xE3, CHR 0x80, CHR 0x80]]"

function dropRunes :: "string list \<Rightarrow> string \<Rightarrow> string" where
  "dropRunes qs s =
     (case List.find (\<lambda>q. q \<noteq> [] \<and> take (length q) s = q) qs of
        None \<Rightarrow> s
      | Some q \<Rightarrow> dropRunes qs (drop (length q) s))"
  by pat_completeness auto
termination
proof (relation "measure (\<lambda>(qs, s). length s)")
  show "wf (measure (\<lambda>(qs, s). length s))" by simp
next
  fix qs :: "string list" and s q :: string
  assume "List.find (\<lambda>q. q \<noteq> [] \<and> take (length q) s = q) qs = Some q"
  then have q: "q \<noteq> []" "take (length q) s = q" by (auto simp: find_Some_iff)
  from arg_cong [OF q(2), of length] have "length q \<le> length s" by simp
  moreover have "1 \<le> length q" using q(1) by (cases q) simp_all
  ultimately have "length s - length q < length s" by linarith
  then show "((qs, drop (length q) s), (qs, s)) \<in> measure (\<lambda>(qs, s). length s)"
    by simp
qed

declare dropRunes.simps [simp del]

definition TrimSpace :: "string \<Rightarrow> string" where
  "TrimSpace s = rev (dropRunes (map rev spaceRunes) (rev (dropRunes spaceRunes s)))"

text \<open>
  An \<open>http.ResponseWriter\<close> is an interface; the writer a request is served on is
  modelled by the sequence of calls made on it, oldest first. \<open>writer_header\<close> is the
  header map those calls leave behind, \<open>writer_body\<close> the bytes written.
\<close>

datatype call =
    HeaderAdd string string
  | HeaderSet string string
  | HeaderDel string
  | WriteHeaderCall int
  | WriteCall bytes

type_synonym ResponseWriter = "call list"

fun header_call :: "Header \<Rightarrow> call \<Rightarrow> Header" where
  "header_call h (HeaderAdd k v) = Header_Add h k v"
| "header_call h (HeaderSet k v) = Header_Set h k v"
| "header_call h (HeaderDel k) = Header_Del h k"
| "header_call h (WriteHeaderCall s) = h"
| "header_call h (WriteCall p) = h"

definition writer_header :: "ResponseWriter \<Rightarrow> Header" where
  "writer_header w = foldl header_call [] w"

fun body_call :: "call \<Rightarrow> bytes" where
  "body_call (WriteCall p) = p"
| "body_call c = []"

definition writer_body :: "ResponseWriter \<Rightarrow> bytes" where
  "writer_body w = concat (map body_call w)"

text \<open>
  \<open>http.Error(w, msg, code)\<close>: replaces the content headers, writes the status and the
  message followed by a newline.
\<close>

definition http_Error :: "ResponseWriter \<Rightarrow> string \<Rightarrow> int \<Rightarrow> ResponseWriter" where
  "http_Error w msg code =
     w @ [HeaderDel ''Content-Length'',
          HeaderSet ''Content-Type'' ''text/plain; charset=utf-8'',
          HeaderSet ''X-Content-Type-Options'' ''nosniff'',
          WriteHeaderCall code,
          WriteCall (msg @ [char_of (10 :: nat)])]"

text \<open>
  A downstream handler is modelled by the calls it makes on the writer it is given for a
  request, in order, possibly ending in a panic. The calls are those of the
  \<open>http.ResponseWriter\<close> interface (\<open>Header\<close>, \<open>WriteHeader\<close>, \<open>Write\<close>); the
  handler does not look at what \<open>Write\<close> returns, and a handler that converts its writer
  to an \<open>http.Flusher\<close> to call \<open>Flush\<close> itself is not among the handlers modelled.
\<close>

datatype step = Do call | Panic

record Request =
  Method :: string
  Path :: string

type_synonym Handler = "Request \<Rightarrow> step list"

fun ServeHTTP_writer :: "step list \<Rightarrow> ResponseWriter \<Rightarrow> bool \<times> ResponseWriter" where
  "ServeHTTP_writer [] w = (False, w)"
| "ServeHTTP_writer (Panic # cs) w = (True, w)"
| "ServeHTTP_writer (Do c # cs) w = ServeHTTP_writer cs (w @ [c])"

section \<open>The response recorder\<close>

text \<open>
  \<open>Write\<close> returns the count and error of the source together with the recorder after
  the call. The buffer is a \<open>bytes.Buffer\<close>, whose own \<open>Write\<close> appends all it is
  given and returns its length.
\<close>

datatype error = Error string

record ResponseRecorder =
  status :: int
  header :: Header
  body :: bytes
  capReached :: bool
  maxBytes_rec :: int
  written :: bool

text \<open>
  The field \<open>underlying\<close> of the source is the writer \<open>Flush\<close> delivers to; here
  \<open>Flush\<close> takes that writer as an argument and returns it with the calls made on it.
\<close>

definition NewResponseRecorder :: "int \<Rightarrow> ResponseRecorder" where
  "NewResponseRecorder maxBodyBytes =
     \<lparr>status = 200, header = [], body = [], capReached = False,
      maxBytes_rec = maxBodyBytes, written = False\<rparr>"

definition Write :: "ResponseRecorder \<Rightarrow> bytes \<Rightarrow> (int \<times> error option) \<times> ResponseRecorder" where
  "Write r p =
     (if maxBytes_rec r \<le> 0 then ((int (length p), None), r\<lparr>body := body r @ p\<rparr>)
      else
        let remaining = maxBytes_rec r - int (length (body r)) in
        if remaining \<le> 0 then ((int (length p), None), r\<lparr>capReached := True\<rparr>)
        else if int (length p) \<le> remaining
        then ((int (length p), None), r\<lparr>body := body r @ p\<rparr>)
        else ((int (length (take (nat remaining) p)), None),
              r\<lparr>body := body r @ take (nat remaining) p, capReached := True\<rparr>))"

definition WriteHeader :: "ResponseRecorder \<Rightarrow> int \<Rightarrow> ResponseRecorder" where
  "WriteHeader r s = r\<lparr>status := s\<rparr>"

definition Flush :: "ResponseRecorder \<Rightarrow> ResponseWriter \<Rightarrow> ResponseRecorder \<times> ResponseWriter" where
  "Flush r dest =
     (if written r then (r, dest)
      else
        let hdr = Header_Clone (header r);
            dest1 = dest @ concat (map (\<lambda>(k, vv). map (HeaderAdd k) vv) hdr);
            dest2 = dest1 @ [WriteHeaderCall (status r)];
            dest3 = (if length (body r) > 0 then dest2 @ [WriteCall (body r)] else dest2)
        in (r\<lparr>written := True\<rparr>, dest3))"

text \<open>
  The handler's calls when the writer it is given is a recorder: header calls act on the
  map \<open>Header()\<close> returns, the others are the recorder's methods. The boolean is whether
  the handler panicked.
\<close>

fun recorder_call :: "ResponseRecorder \<Rightarrow> call \<Rightarrow> ResponseRecorder" where
  "recorder_call r (HeaderAdd k v) = r\<lparr>header := Header_Add (header r) k v\<rparr>"
| "recorder_call r (HeaderSet k v) = r\<lparr>header := Header_Set (header r) k v\<rparr>"
| "recorder_call r (HeaderDel k) = r\<lparr>header := Header_Del (header r) k\<rparr>"
| "recorder_call r (WriteHeaderCall s) = WriteHeader r s"
| "recorder_call r (WriteCall p) = snd (Write r p)"

fun ServeHTTP_recorder :: "step list \<Rightarrow> ResponseRecorder \<Rightarrow> bool \<times> ResponseRecorder" where
  "ServeHTTP_recorder [] r = (False, r)"
| "ServeHTTP_recorder (Panic # cs) r = (True, r)"
| "ServeHTTP_recorder (Do c # cs) r = ServeHTTP_recorder cs (recorder_call r c)"

section \<open>Configuration and the header sanitizer\<close>

record Config =
  DefaultTTL :: int
  DefaultSWR :: int
  KeyGenerator :: "Request \<Rightarrow> string"
  ShouldCache :: "int \<Rightarrow> bool"
  MaxBodyBytes :: int
  StripHeaders :: "Header \<Rightarrow> Header"

definition DefaultKeyGenerator :: "Request \<Rightarrow> string" where
  "DefaultKeyGenerator r = ''cache:'' @ Method r @ '':'' @ Path r"

definition hopByHop :: "string list" where
  "hopByHop = [''Connection'', ''Proxy-Connection'', ''Keep-Alive'',
               ''Proxy-Authenticate'', ''Proxy-Authorization'', ''TE'',
               ''Trailer'', ''Transfer-Encoding'', ''Upgrade'']"

definition stripHopByHop :: "Header \<Rightarrow> Header" where
  "stripHopByHop hdr =
     (let headerClone = foldl Header_Del (Header_Clone hdr) hopByHop;
          conn = Header_Get hdr ''Connection''
      in if conn \<noteq> []
         then foldl (\<lambda>h token. let t = TrimSpace token in if t \<noteq> [] then Header_Del h t else h)
                headerClone (Split conn CHR '','')
         else headerClone)"

definition DefaultConfig :: Config where
  "DefaultConfig =
     \<lparr>DefaultTTL = 5 * 60 * 1000000000, DefaultSWR = 60 * 1000000000,
      KeyGenerator = DefaultKeyGenerator,
      ShouldCache = (\<lambda>statusCode. statusCode \<ge> 200 \<and> statusCode < 300),
      MaxBodyBytes = 0, StripHeaders = stripHopByHop\<rparr>"

section \<open>cache/in_memory_quota_lru.go: the bounded LRU store\<close>

text \<open>
  The store keeps pointers to \<open>list.Element\<close>s in its index and mutates the
  \<open>lruEntry\<close> an element holds in place, so elements are addresses into an explicit heap:
  \<open>elements\<close> maps an allocated address to the \<open>Value\<close> of the element (it stays
  readable after the element is unlinked, as it does through a pointer in Go),
  \<open>nextElement\<close> is the next address to allocate, \<open>lru\<close> is the list, front (most
  recently used) first. The cached entry pointer is the entry itself; the middleware never
  passes a nil entry to \<open>Set\<close>.
\<close>

record lruEntry =
  entry_key :: string
  entry_size :: int
  entry_value :: ResponseCacheEntry

type_synonym Element = nat

record InMemoryQuotaLRU =
  elements :: "Element \<rightharpoonup> lruEntry"
  nextElement :: Element
  lru :: "Element list"
  cache :: "string \<rightharpoonup> Element"
  maxBytes :: int
  currentBytes :: int

text \<open>
  \<open>container/list\<close>: \<open>MoveToFront\<close> and \<open>Remove\<close> do nothing for an element that is
  not (or no longer) linked in the list; \<open>Back\<close> is nil for the empty list.
\<close>

definition PushFront :: "Element list \<Rightarrow> Element \<Rightarrow> Element list" where
  "PushFront l e = e # l"

definition MoveToFront :: "Element list \<Rightarrow> Element \<Rightarrow> Element list" where
  "MoveToFront l e = (if e \<in> set l then e # remove1 e l else l)"

definition Remove :: "Element list \<Rightarrow> Element \<Rightarrow> Element list" where
  "Remove l e = (if e \<in> set l then remove1 e l else l)"

definition Back :: "Element list \<Rightarrow> Element option" where
  "Back l = (if l = [] then None else Some (last l))"

definition NewInMemoryQuotaLRU :: "int \<Rightarrow> InMemoryQuotaLRU" where
  "NewInMemoryQuotaLRU maxMB =
     \<lparr>elements = Map.empty, nextElement = 0, lru = [], cache = Map.empty,
      maxBytes = i64 (i64 (maxMB * 1024) * 1024), currentBytes = 0\<rparr>"

text \<open>
  \<open>Get\<close> runs two critical sections: \<open>Get_read\<close> under the read lock, \<open>Get_promote\<close>
  under the write lock, followed by the read of the element's entry. Other calls on the
  store can run between the two; \<open>Get\<close> itself is the run with nothing in between.
\<close>

definition Get_read :: "InMemoryQuotaLRU \<Rightarrow> string \<Rightarrow> Element option" where
  "Get_read s k = cache s k"

definition Get_promote ::
  "InMemoryQuotaLRU \<Rightarrow> Element \<Rightarrow> (ResponseCacheEntry option \<times> bool) \<times> InMemoryQuotaLRU" where
  "Get_promote s element =
     ((map_option entry_value (elements s element), True),
      s\<lparr>lru := MoveToFront (lru s) element\<rparr>)"

definition Get ::
  "InMemoryQuotaLRU \<Rightarrow> string \<Rightarrow> (ResponseCacheEntry option \<times> bool) \<times> InMemoryQuotaLRU" where
  "Get s k =
     (case Get_read s k of
        None \<Rightarrow> ((None, False), s)
      | Some element \<Rightarrow> Get_promote s element)"

text \<open>
  \<open>Set\<close> is \<open>Set_insert\<close> (the update in place or the insertion at the front)
  followed by the eviction loop \<open>evict\<close>, all under the write lock. The index only
  ever holds allocated elements, so the branches for an unallocated element leave the
  state as it is.
\<close>

definition Set_insert :: "InMemoryQuotaLRU \<Rightarrow> string \<Rightarrow> ResponseCacheEntry \<Rightarrow> InMemoryQuotaLRU" where
  "Set_insert s k entry =
     (let itemSize = Size entry in
      case cache s k of
        Some element \<Rightarrow>
          (case elements s element of
             Some oldEntry \<Rightarrow>
               s\<lparr>currentBytes := i64 (i64 (currentBytes s - entry_size oldEntry) + itemSize),
                 elements := (elements s)
                   (element \<mapsto> oldEntry\<lparr>entry_size := itemSize, entry_value := entry\<rparr>),
                 lru := MoveToFront (lru s) element\<rparr>
           | None \<Rightarrow> s)
      | None \<Rightarrow>
          (let element = nextElement s;
               newEntry = \<lparr>entry_key = k, entry_size = itemSize, entry_value = entry\<rparr>
           in s\<lparr>elements := (elements s)(element \<mapsto> newEntry),
                nextElement := Suc element,
                lru := PushFront (lru s) element,
                cache := (cache s)(k \<mapsto> element),
                currentBytes := i64 (currentBytes s + itemSize)\<rparr>))"

function evict :: "InMemoryQuotaLRU \<Rightarrow> InMemoryQuotaLRU" where
  "evict s =
     (if currentBytes s > maxBytes s then
        (case Back (lru s) of
           None \<Rightarrow> s
         | Some lruElement \<Rightarrow>
             (case elements s lruElement of
                None \<Rightarrow> s
              | Some evictedEntry \<Rightarrow>
                  evict (s\<lparr>lru := Remove (lru s) lruElement,
                           cache := (cache s)(entry_key evictedEntry := None),
                           currentBytes := i64 (currentBytes s - entry_size evictedEntry)\<rparr>)))
      else s)"
  by pat_completeness auto
termination
proof (relation "measure (\<lambda>s. length (lru s))")
  show "wf (measure (\<lambda>s. length (lru s)))" by simp
next
  fix s :: InMemoryQuotaLRU and x2 x2a
  assume "Back (lru s) = Some x2"
  then have "lru s \<noteq> []" "x2 = last (lru s)" by (auto simp: Back_def split: if_splits)
  then have "x2 \<in> set (lru s)" by simp
  then show "(s\<lparr>lru := Remove (lru s) x2, cache := (cache s)(entry_key x2a := None),
                currentBytes := i64 (currentBytes s - entry_size x2a)\<rparr>, s)
             \<in> measure (\<lambda>s. length (lru s))"
    by (simp add: Remove_def length_remove1) (cases "lru s", auto)
qed

declare evict.simps [simp del]

definition Set :: "InMemoryQuotaLRU \<Rightarrow> string \<Rightarrow> ResponseCacheEntry \<Rightarrow> error option \<times> InMemoryQuotaLRU" where
  "Set s k entry = (None, evict (Set_insert s k entry))"

definition Delete :: "InMemoryQuotaLRU \<Rightarrow> string \<Rightarrow> error option \<times> InMemoryQuotaLRU" where
  "Delete s k =
     (case cache s k of
        Some element \<Rightarrow>
          (case elements s element of
             Some evictedEntry \<Rightarrow>
               (None, s\<lparr>lru := Remove (lru s) element,
                        cache := (cache s)(entry_key evictedEntry := None),
                        currentBytes := i64 (currentBytes s - entry_size evictedEntry)\<rparr>)
           | None \<Rightarrow> (None, s))
      | None \<Rightarrow> (None, s))"

definition Close :: "InMemoryQuotaLRU \<Rightarrow> error option" where
  "Close s = None"

text \<open>Sequences of calls on the store.\<close>

datatype store_op = OpSet string ResponseCacheEntry | OpDelete string | OpGet string

fun apply_op :: "InMemoryQuotaLRU \<Rightarrow> store_op \<Rightarrow> InMemoryQuotaLRU" where
  "apply_op s (OpSet k e) = snd (Set s k e)"
| "apply_op s (OpDelete k) = snd (Delete s k)"
| "apply_op s (OpGet k) = snd (Get s k)"

definition run_ops :: "InMemoryQuotaLRU \<Rightarrow> store_op list \<Rightarrow> InMemoryQuotaLRU" where
  "run_ops s ops = foldl apply_op s ops"

text \<open>
  The invariant of the store between calls: the list holds pairwise distinct allocated
  elements, the index maps exactly the keys of the linked elements to them, and the
  running total is the sum of the sizes recorded in the linked elements.
\<close>

definition tracked_size :: "(Element \<rightharpoonup> lruEntry) \<Rightarrow> Element \<Rightarrow> int" where
  "tracked_size h el = (case h el of Some e \<Rightarrow> entry_size e | None \<Rightarrow> 0)"

definition total_size :: "(Element \<rightharpoonup> lruEntry) \<Rightarrow> Element list \<Rightarrow> int" where
  "total_size h l = sum_list (map (tracked_size h) l)"

definition lru_inv :: "InMemoryQuotaLRU \<Rightarrow> bool" where
  "lru_inv s \<longleftrightarrow>
     distinct (lru s)
     \<and> (\<forall>el \<in> set (lru s). el < nextElement s \<and>
          (\<exists>e. elements s el = Some e \<and> cache s (entry_key e) = Some el \<and> 0 \<le> entry_size e))
     \<and> (\<forall>k el. cache s k = Some el \<longrightarrow>
          el \<in> set (lru s) \<and> (\<exists>e. elements s el = Some e \<and> entry_key e = k))
     \<and> currentBytes s = total_size (elements s) (lru s)
     \<and> currentBytes s < 2 ^ 63"

text \<open>The three assignments by which \<open>evict\<close> and \<open>Delete\<close> drop an element.\<close>

definition unlink :: "InMemoryQuotaLRU \<Rightarrow> Element \<Rightarrow> lruEntry \<Rightarrow> InMemoryQuotaLRU" where
  "unlink s el ev =
     s\<lparr>lru := Remove (lru s) el,
       cache := (cache s)(entry_key ev := None),
       currentBytes := i64 (currentBytes s - entry_size ev)\<rparr>"

text \<open>
  Between calls the total is within the quota or the store is empty. \<open>fits q x\<close>: the
  call \<open>x\<close>, on a store of quota \<open>q\<close>, cannot overflow the \<open>int64\<close> running total.
\<close>

definition lru_ok :: "InMemoryQuotaLRU \<Rightarrow> bool" where
  "lru_ok s \<longleftrightarrow> lru_inv s \<and> (currentBytes s \<le> maxBytes s \<or> lru s = [])"

fun fits :: "int \<Rightarrow> store_op \<Rightarrow> bool" where
  "fits q (OpSet k e) = (max 0 q + Size e < 2 ^ 63)"
| "fits q (OpDelete k) = True"
| "fits q (OpGet k) = True"

text \<open>A store of quota 1 MB holding one entry under the key \<open>k\<close>.\<close>

definition store_one :: InMemoryQuotaLRU where
  "store_one = snd (Set (NewInMemoryQuotaLRU 1) ''k'' entry_ten_five)"

section \<open>The middleware\<close>

text \<open>
  The goroutines the middleware starts are returned as tasks: the asynchronous
  \<open>store.Set\<close> of the miss path and the background refresh of a stale hit. The three
  readings of the clock in one request (\<open>IsRotten\<close>, \<open>IsStale\<close>, \<open>time.Now\<close>) are
  arguments. The store is any implementation of the \<open>Store\<close> interface, given by its
  \<open>Get\<close> function and its state.
\<close>

datatype task = SetTask string ResponseCacheEntry | RefreshTask string Request

record Clock =
  at_IsRotten :: int
  at_IsStale :: int
  at_Now :: int

record 's Served =
  store_after :: 's
  writer_after :: ResponseWriter
  spawned :: "task list"
  panicked :: bool

text \<open>The recorder's accessors \<open>StatusCode()\<close>, \<open>Body()\<close> and \<open>Header()\<close>.\<close>

definition recorder_StatusCode :: "ResponseRecorder \<Rightarrow> int" where
  "recorder_StatusCode r = status r"

definition recorder_Body :: "ResponseRecorder \<Rightarrow> bytes" where
  "recorder_Body r = body r"

definition recorder_Header :: "ResponseRecorder \<Rightarrow> Header" where
  "recorder_Header r = header r"

text \<open>
  The entry both the miss path and the refresh build from a capture, and the body of
  the function the refresh goroutine runs: the \<open>Set\<close> call it makes, if any.
\<close>

definition captured_entry :: "Config \<Rightarrow> ResponseRecorder \<Rightarrow> int \<Rightarrow> ResponseCacheEntry" where
  "captured_entry cfg r now =
     \<lparr>StatusCode = recorder_StatusCode r,
      Headers = StripHeaders cfg (Header_Clone (recorder_Header r)),
      Body = recorder_Body r,
      CreatedAt = now,
      TTL = DefaultTTL cfg,
      SWR = DefaultSWR cfg\<rparr>"

definition refresh ::
  "Config \<Rightarrow> Handler \<Rightarrow> int \<Rightarrow> string \<Rightarrow> Request \<Rightarrow> (string \<times> ResponseCacheEntry) option" where
  "refresh cfg next now cacheKey req =
     (let (p, r) = ServeHTTP_recorder (next req) (NewResponseRecorder (MaxBodyBytes cfg))
      in if p then None
         else if ShouldCache cfg (recorder_StatusCode r) \<and> \<not> capReached r
         then Some (cacheKey, captured_entry cfg r now)
         else None)"

text \<open>
  The request handler \<open>NewCacheMiddleware\<close> returns, with its two paths: \<open>serve_hit\<close>
  for a found entry that is not rotten, \<open>serve_miss\<close> for the rest, a recovered handler
  panic included.
\<close>

definition serve_hit ::
  "ResponseCacheEntry \<Rightarrow> Clock \<Rightarrow> string \<Rightarrow> ResponseWriter \<Rightarrow> Request
     \<Rightarrow> ResponseWriter \<times> task list" where
  "serve_hit e clock cacheKey w request =
     (let w1 = w @ concat (map (\<lambda>(headerKey, headerValues). map (HeaderAdd headerKey) headerValues)
                            (Headers e));
          w2 = w1 @ [HeaderSet ''X-Cache-Status'' ''HIT''];
          (w3, tasks) =
            (if IsStale e (at_IsStale clock)
             then (w2 @ [HeaderSet ''X-Cache-Stale'' ''YES''], [RefreshTask cacheKey request])
             else (w2 @ [HeaderSet ''X-Cache-Stale'' ''NO''], []));
          w4 = w3 @ [WriteHeaderCall (StatusCode e)];
          w5 = (if length (Body e) > 0 then w4 @ [WriteCall (Body e)] else w4)
      in (w5, tasks))"

definition serve_miss ::
  "Config \<Rightarrow> Handler \<Rightarrow> Clock \<Rightarrow> string \<Rightarrow> ResponseWriter \<Rightarrow> Request
     \<Rightarrow> ResponseWriter \<times> task list" where
  "serve_miss cfg next clock cacheKey w request =
     (let (p, responseRecorder) =
            ServeHTTP_recorder (next request) (NewResponseRecorder (MaxBodyBytes cfg))
      in if p
         then (if \<not> written responseRecorder
               then (http_Error w ''internal server error'' 500, [])
               else (w, []))
         else
           let status = recorder_StatusCode responseRecorder;
               tasks =
                 (if ShouldCache cfg status \<and> \<not> capReached responseRecorder
                  then [SetTask cacheKey (captured_entry cfg responseRecorder (at_Now clock))]
                  else [])
           in (snd (Flush responseRecorder w), tasks))"

definition NewCacheMiddleware ::
  "('s \<Rightarrow> string \<Rightarrow> (ResponseCacheEntry option \<times> bool) \<times> 's) \<Rightarrow> Config option \<Rightarrow> Handler
     \<Rightarrow> Clock \<Rightarrow> 's \<Rightarrow> ResponseWriter \<Rightarrow> Request \<Rightarrow> 's Served" where
  "NewCacheMiddleware store_Get cfg0 next clock store responseWriter request =
     (let cfg = (case cfg0 of None \<Rightarrow> DefaultConfig | Some c \<Rightarrow> c) in
      if Method request \<noteq> ''GET'' \<and> Method request \<noteq> ''HEAD''
      then (let (p, w) = ServeHTTP_writer (next request) responseWriter
            in \<lparr>store_after = store, writer_after = w, spawned = [], panicked = p\<rparr>)
      else
        let cacheKey = KeyGenerator cfg request in
        if cacheKey = []
        then (let (p, w) = ServeHTTP_writer (next request) responseWriter
              in \<lparr>store_after = store, writer_after = w, spawned = [], panicked = p\<rparr>)
        else
          let ((responseCacheEntry, cacheHit), store') = store_Get store cacheKey;
              hit = (case responseCacheEntry of
                       None \<Rightarrow> None
                     | Some e \<Rightarrow> if cacheHit \<and> \<not> IsRotten e (at_IsRotten clock) then Some e else None)
          in case hit of
               Some e \<Rightarrow>
                 (let (w, tasks) = serve_hit e clock cacheKey responseWriter request
                  in \<lparr>store_after = store', writer_after = w, spawned = tasks, panicked = False\<rparr>)
             | None \<Rightarrow>
                 (let w0 = (if \<not> cacheHit
                            then responseWriter @ [HeaderSet ''X-Cache-Status'' ''MISS'']
                            else responseWriter);
                      (w, tasks) = serve_miss cfg next clock cacheKey w0 request
                  in \<lparr>store_after = store', writer_after = w, spawned = tasks, panicked = False\<rparr>))"

text \<open>
  A configuration like that of the repository's test (status 200 only, the default key
  and sanitizer), with a body cap of 4 bytes; a request for \<open>GET /\<close>; a handler that
  writes status 200 and the body \<open>hello\<close>.
\<close>

definition test_config :: Config where
  "test_config =
     \<lparr>DefaultTTL = 1000000000, DefaultSWR = 1500000000,
      KeyGenerator = DefaultKeyGenerator,
      ShouldCache = (\<lambda>statusCode. statusCode = 200),
      MaxBodyBytes = 4, StripHeaders = stripHopByHop\<rparr>"

definition get_root :: Request where
  "get_root = \<lparr>Method = ''GET'', Path = ''/''\<rparr>"

definition hello_handler :: Handler where
  "hello_handler r = [Do (WriteHeaderCall 200), Do (WriteCall ''hello'')]"

definition clock_at :: "int \<Rightarrow> Clock" where
  "clock_at t = \<lparr>at_IsRotten = t, at_IsStale = t, at_Now = t\<rparr>"

text \<open>A store holding, under the key of \<open>get_root\<close>, an entry that is rotten from time 16 on.\<close>

definition store_rotten :: InMemoryQuotaLRU where
  "store_rotten = snd (Set (NewInMemoryQuotaLRU 1) ''cache:GET:/'' entry_ten_five)"

text \<open>\<open>keeps key c\<close>: the call \<open>c\<close> leaves the first value of the header \<open>key\<close> in place.\<close>

fun keeps :: "string \<Rightarrow> call \<Rightarrow> bool" where
  "keeps key (HeaderAdd k v) = True"
| "keeps key (HeaderSet k v) = (CanonicalMIMEHeaderKey k \<noteq> key)"
| "keeps key (HeaderDel k) = (CanonicalMIMEHeaderKey k \<noteq> key)"
| "keeps key (WriteHeaderCall s) = True"
| "keeps key (WriteCall p) = True"

text \<open>\<open>avoids key c\<close>: the call \<open>c\<close> does not give the header \<open>key\<close> a value.\<close>

fun avoids :: "string \<Rightarrow> call \<Rightarrow> bool" where
  "avoids key (HeaderAdd k v) = (CanonicalMIMEHeaderKey k \<noteq> key)"
| "avoids key (HeaderSet k v) = (CanonicalMIMEHeaderKey k \<noteq> key)"
| "avoids key (HeaderDel k) = True"
| "avoids key (WriteHeaderCall s) = True"
| "avoids key (WriteCall p) = True"

text \<open>A handler that sets one header and writes a body without setting a status.\<close>

definition header_handler :: Handler where
  "header_handler r = [Do (HeaderSet ''content-type'' ''text/plain''), Do (WriteCall ''hi'')]"

text \<open>A header map whose \<open>Connection\<close> header was added twice.\<close>

definition two_connection_values :: Header where
  "two_connection_values =
     [(''Connection'', [''close'', ''X-Custom'']), (''X-Custom'', [''1'']), (''Te'', [''trailers''])]"

section \<open>Properties of the cache entry\<close>

lemma i64_id: "is_i64 x \<Longrightarrow> i64 x = x"
  by (simp add: i64_def is_i64_def)

lemma is_i64_i64: "is_i64 (i64 x)"
proof -
  have "0 \<le> (x + 2 ^ 63) mod (2 ^ 64 :: int)" by simp
  moreover have "(x + 2 ^ 63) mod (2 ^ 64 :: int) < 2 ^ 64"
    by (rule pos_mod_bound) simp
  ultimately show ?thesis by (simp add: i64_def is_i64_def)
qed

text \<open>
  C6, as the claim states it: an entry is Fresh (neither stale nor rotten) exactly when
  its age is at most the TTL. With a negative SWR window the code calls an entry rotten
  before it is stale: TTL 10, SWR -5, age 7 is not stale, yet rotten.
\<close>

theorem fresh_iff_age_le_ttl_counterexample:
  "\<not> ((\<not> IsStale entry_negative_swr 7 \<and> \<not> IsRotten entry_negative_swr 7)
       \<longleftrightarrow> Since 7 (CreatedAt entry_negative_swr) \<le> TTL entry_negative_swr)"
  by (simp add: IsStale_def IsRotten_def Since_def i64_def entry_negative_swr_def)

text \<open>
  C6, amended: for an entry whose SWR window is not negative and whose sum TTL + SWR does
  not leave the \<open>int64\<close> range, with age the value \<open>time.Since(CreatedAt)\<close> returns:
  the entry is neither stale nor rotten exactly when age \<open>\<le>\<close> TTL, stale but not rotten
  exactly when TTL \<open><\<close> age \<open>\<le>\<close> TTL + SWR, and rotten exactly when age \<open>>\<close> TTL + SWR.
\<close>

theorem entry_freshness_classes:
  assumes "0 \<le> SWR e" and "is_i64 (TTL e)" and "TTL e + SWR e < 2 ^ 63"
  shows "((\<not> IsStale e now \<and> \<not> IsRotten e now) \<longleftrightarrow> Since now (CreatedAt e) \<le> TTL e)
       \<and> ((IsStale e now \<and> \<not> IsRotten e now) \<longleftrightarrow>
            TTL e < Since now (CreatedAt e) \<and> Since now (CreatedAt e) \<le> TTL e + SWR e)
       \<and> (IsRotten e now \<longleftrightarrow> Since now (CreatedAt e) > TTL e + SWR e)"
proof -
  from assms have "is_i64 (TTL e + SWR e)" by (simp add: is_i64_def)
  then have w: "i64 (TTL e + SWR e) = TTL e + SWR e" by (rule i64_id)
  show ?thesis using assms(1) by (auto simp: IsStale_def IsRotten_def w)
qed

theorem entry_freshness_classes_witness:
  "0 \<le> SWR entry_ten_five \<and> is_i64 (TTL entry_ten_five)
   \<and> TTL entry_ten_five + SWR entry_ten_five < 2 ^ 63
   \<and> \<not> IsStale entry_ten_five 7 \<and> \<not> IsRotten entry_ten_five 7
   \<and> IsStale entry_ten_five 12 \<and> \<not> IsRotten entry_ten_five 12
   \<and> IsRotten entry_ten_five 16"
proof -
  have h: "0 \<le> SWR entry_ten_five" "is_i64 (TTL entry_ten_five)"
    "TTL entry_ten_five + SWR entry_ten_five < 2 ^ 63"
    by (simp_all add: entry_ten_five_def is_i64_def)
  from entry_freshness_classes [OF h, of 7] entry_freshness_classes [OF h, of 12]
    entry_freshness_classes [OF h, of 16] h
  show ?thesis by (simp add: Since_def entry_ten_five_def)
qed

text \<open>
  C8, as the claim states it: \<open>Size\<close> is the body length plus 30 for every header
  key/value pair, counting each value of a name. An entry with the two-valued header
  \<open>Set-Cookie: a, b\<close> and the body \<open>hi\<close> has two pairs, and \<open>Size\<close> 32, not 62.
\<close>

theorem Size_per_pair_counterexample:
  "Size entry_two_cookies
     \<noteq> int (length (Body entry_two_cookies)) + 30 * int (header_pairs (Headers entry_two_cookies))"
  by (simp add: Size_def header_pairs_def entry_two_cookies_def)

text \<open>
  C8, amended: \<open>Size\<close> is the body length in bytes plus 30 for every distinct header name
  of the entry (every entry of the header map), however many values the name has.
\<close>

theorem Size_counts_header_names:
  assumes "distinct (map fst (Headers e))"
  shows "Size e = int (length (Body e)) + 30 * int (card (fst ` set (Headers e)))"
proof -
  have "card (fst ` set (Headers e)) = length (Headers e)"
    using assms by (metis distinct_card length_map set_map)
  then show ?thesis by (simp add: Size_def)
qed

theorem Size_counts_header_names_witness:
  "distinct (map fst (Headers entry_two_cookies)) \<and> Size entry_two_cookies = 32"
  using Size_counts_header_names [of entry_two_cookies] by (simp add: entry_two_cookies_def)

section \<open>Properties of the bounded LRU store\<close>

lemma total_size_nonneg:
  "\<forall>el \<in> set l. 0 \<le> tracked_size h el \<Longrightarrow> 0 \<le> total_size h l"
  by (induction l) (auto simp: total_size_def)

lemma total_size_member:
  "\<forall>el \<in> set l. 0 \<le> tracked_size h el \<Longrightarrow> x \<in> set l \<Longrightarrow> tracked_size h x \<le> total_size h l"
proof (induction l)
  case Nil then show ?case by simp
next
  case (Cons a l)
  have nn: "0 \<le> total_size h l" using Cons.prems(1) by (intro total_size_nonneg) simp
  show ?case
  proof (cases "x = a")
    case True then show ?thesis using nn by (simp add: total_size_def)
  next
    case False
    then have "tracked_size h x \<le> total_size h l" using Cons by simp
    moreover have "0 \<le> tracked_size h a" using Cons.prems(1) by simp
    ultimately show ?thesis by (simp add: total_size_def)
  qed
qed

lemma total_size_remove1:
  "x \<in> set l \<Longrightarrow> total_size h (remove1 x l) = total_size h l - tracked_size h x"
  by (induction l) (auto simp: total_size_def)

lemma total_size_upd_other:
  "x \<notin> set l \<Longrightarrow> total_size (h(x \<mapsto> e)) l = total_size h l"
  by (induction l) (auto simp: total_size_def tracked_size_def)

lemma total_size_append:
  "total_size h (xs @ ys) = total_size h xs + total_size h ys"
  by (simp add: total_size_def)

lemma lru_inv_sizes:
  assumes "lru_inv s"
  shows "\<forall>el \<in> set (lru s). 0 \<le> tracked_size (elements s) el"
  using assms by (auto simp: lru_inv_def tracked_size_def)

lemma lru_inv_current_nonneg: "lru_inv s \<Longrightarrow> 0 \<le> currentBytes s"
  using total_size_nonneg [OF lru_inv_sizes] by (simp add: lru_inv_def)

lemma lru_inv_sub:
  assumes "lru_inv s" and "el \<in> set (lru s)" and "elements s el = Some e"
  shows "i64 (currentBytes s - entry_size e) = currentBytes s - entry_size e"
    and "0 \<le> currentBytes s - entry_size e"
    and "0 \<le> entry_size e"
proof -
  have sz: "tracked_size (elements s) el = entry_size e" using assms(3) by (simp add: tracked_size_def)
  have "tracked_size (elements s) el \<le> total_size (elements s) (lru s)"
    using total_size_member [OF lru_inv_sizes [OF assms(1)] assms(2)] .
  then have le: "entry_size e \<le> currentBytes s" using assms(1) sz by (simp add: lru_inv_def)
  show nn: "0 \<le> entry_size e" using lru_inv_sizes [OF assms(1)] assms(2) sz by auto
  show "0 \<le> currentBytes s - entry_size e" using le by simp
  have "currentBytes s < 2 ^ 63" using assms(1) by (simp add: lru_inv_def)
  then have "is_i64 (currentBytes s - entry_size e)" using le nn by (simp add: is_i64_def)
  then show "i64 (currentBytes s - entry_size e) = currentBytes s - entry_size e" by (rule i64_id)
qed

lemma Size_nonneg: "0 \<le> Size e"
  by (simp add: Size_def)

lemma lru_inv_New: "lru_inv (NewInMemoryQuotaLRU maxMB)"
  by (simp add: lru_inv_def NewInMemoryQuotaLRU_def total_size_def)

lemma maxBytes_New_i64: "is_i64 (maxBytes (NewInMemoryQuotaLRU maxMB))"
  by (simp add: NewInMemoryQuotaLRU_def is_i64_i64)

lemma lru_invI:
  assumes "distinct (lru s)"
    and "\<And>el. el \<in> set (lru s) \<Longrightarrow> el < nextElement s"
    and "\<And>el. el \<in> set (lru s) \<Longrightarrow>
          \<exists>e. elements s el = Some e \<and> cache s (entry_key e) = Some el \<and> 0 \<le> entry_size e"
    and "\<And>k el. cache s k = Some el \<Longrightarrow>
          el \<in> set (lru s) \<and> (\<exists>e. elements s el = Some e \<and> entry_key e = k)"
    and "currentBytes s = total_size (elements s) (lru s)"
    and "currentBytes s < 2 ^ 63"
  shows "lru_inv s"
  using assms unfolding lru_inv_def by blast

lemma lru_inv_distinct: "lru_inv s \<Longrightarrow> distinct (lru s)"
  by (simp add: lru_inv_def)

lemma lru_inv_bound: "lru_inv s \<Longrightarrow> el \<in> set (lru s) \<Longrightarrow> el < nextElement s"
  by (simp add: lru_inv_def)

lemma lru_inv_elem:
  "lru_inv s \<Longrightarrow> el \<in> set (lru s) \<Longrightarrow>
     \<exists>e. elements s el = Some e \<and> cache s (entry_key e) = Some el \<and> 0 \<le> entry_size e"
  by (simp add: lru_inv_def)

lemma lru_inv_cache:
  "lru_inv s \<Longrightarrow> cache s k = Some el \<Longrightarrow>
     el \<in> set (lru s) \<and> (\<exists>e. elements s el = Some e \<and> entry_key e = k)"
  by (simp add: lru_inv_def)

lemma lru_inv_total: "lru_inv s \<Longrightarrow> currentBytes s = total_size (elements s) (lru s)"
  by (simp add: lru_inv_def)

lemma lru_inv_lt: "lru_inv s \<Longrightarrow> currentBytes s < 2 ^ 63"
  by (simp add: lru_inv_def)

lemma Set_insert_new:
  assumes "cache s k = None"
  shows "Set_insert s k entry =
     s\<lparr>elements := (elements s)(nextElement s \<mapsto>
            \<lparr>entry_key = k, entry_size = Size entry, entry_value = entry\<rparr>),
       nextElement := Suc (nextElement s),
       lru := nextElement s # lru s,
       cache := (cache s)(k \<mapsto> nextElement s),
       currentBytes := i64 (currentBytes s + Size entry)\<rparr>"
  using assms by (simp add: Set_insert_def PushFront_def Let_def)

lemma Set_insert_old:
  assumes "cache s k = Some el" and "elements s el = Some old" and "el \<in> set (lru s)"
  shows "Set_insert s k entry =
     s\<lparr>currentBytes := i64 (i64 (currentBytes s - entry_size old) + Size entry),
       elements := (elements s)(el \<mapsto> old\<lparr>entry_size := Size entry, entry_value := entry\<rparr>),
       lru := el # remove1 el (lru s)\<rparr>"
  using assms by (simp add: Set_insert_def MoveToFront_def Let_def)

lemma lru_inv_Set_insert:
  assumes inv: "lru_inv s" and fit: "currentBytes s + Size entry < 2 ^ 63"
  shows "lru_inv (Set_insert s k entry)"
proof (cases "cache s k")
  case None
  define el where "el = nextElement s"
  define new where "new = \<lparr>entry_key = k, entry_size = Size entry, entry_value = entry\<rparr>"
  define s' where "s' = Set_insert s k entry"
  have s': "elements s' = (elements s)(el \<mapsto> new)" "nextElement s' = Suc el"
    "lru s' = el # lru s" "cache s' = (cache s)(k \<mapsto> el)"
    "currentBytes s' = i64 (currentBytes s + Size entry)"
    by (simp_all add: s'_def Set_insert_new [OF None] el_def new_def)
  have fresh: "el \<notin> set (lru s)" using lru_inv_bound [OF inv, of el] by (auto simp: el_def)
  have "is_i64 (currentBytes s + Size entry)"
    using fit lru_inv_current_nonneg [OF inv] Size_nonneg [of entry] by (simp add: is_i64_def)
  then have cur: "currentBytes s' = currentBytes s + Size entry" by (simp add: s' i64_id)
  have "lru_inv s'"
  proof (rule lru_invI)
    show "distinct (lru s')" using lru_inv_distinct [OF inv] fresh by (simp add: s')
  next
    fix x assume "x \<in> set (lru s')"
    then show "x < nextElement s'" using lru_inv_bound [OF inv, of x] by (auto simp: s' el_def)
  next
    fix x assume x: "x \<in> set (lru s')"
    show "\<exists>e. elements s' x = Some e \<and> cache s' (entry_key e) = Some x \<and> 0 \<le> entry_size e"
    proof (cases "x = el")
      case True
      then show ?thesis using Size_nonneg [of entry] by (simp add: s' new_def)
    next
      case False
      then have "x \<in> set (lru s)" using x by (simp add: s')
      from lru_inv_elem [OF inv this] obtain e where
        e: "elements s x = Some e" "cache s (entry_key e) = Some x" "0 \<le> entry_size e" by blast
      then have "entry_key e \<noteq> k" using None by auto
      then show ?thesis using e False by (simp add: s')
    qed
  next
    fix k' x assume c: "cache s' k' = Some x"
    show "x \<in> set (lru s') \<and> (\<exists>e. elements s' x = Some e \<and> entry_key e = k')"
    proof (cases "k' = k")
      case True
      then show ?thesis using c by (auto simp: s' new_def)
    next
      case False
      then have "cache s k' = Some x" using c by (simp add: s')
      from lru_inv_cache [OF inv this] obtain e where
        e: "x \<in> set (lru s)" "elements s x = Some e" "entry_key e = k'" by blast
      then have "x \<noteq> el" using fresh by auto
      then show ?thesis using e by (simp add: s')
    qed
  next
    have "total_size (elements s') (lru s') = Size entry + total_size ((elements s)(el \<mapsto> new)) (lru s)"
      by (simp add: s' total_size_def tracked_size_def new_def)
    also have "\<dots> = Size entry + total_size (elements s) (lru s)"
      using total_size_upd_other [OF fresh] by simp
    finally show "currentBytes s' = total_size (elements s') (lru s')"
      using lru_inv_total [OF inv] cur by simp
  next
    show "currentBytes s' < 2 ^ 63" using cur fit by simp
  qed
  then show ?thesis by (simp add: s'_def)
next
  case (Some el)
  from lru_inv_cache [OF inv Some] obtain old where
    old: "el \<in> set (lru s)" "elements s el = Some old" "entry_key old = k" by blast
  define new where "new = old\<lparr>entry_size := Size entry, entry_value := entry\<rparr>"
  define s' where "s' = Set_insert s k entry"
  have s': "elements s' = (elements s)(el \<mapsto> new)" "nextElement s' = nextElement s"
    "lru s' = el # remove1 el (lru s)" "cache s' = cache s"
    "currentBytes s' = i64 (i64 (currentBytes s - entry_size old) + Size entry)"
    by (simp_all add: s'_def Set_insert_old [OF Some old(2) old(1)] new_def)
  have dist: "distinct (lru s)" by (rule lru_inv_distinct [OF inv])
  have notin: "el \<notin> set (remove1 el (lru s))" using dist by simp
  have sets: "set (lru s') = set (lru s)" using old(1) dist by (auto simp: s')
  note sub = lru_inv_sub [OF inv old(1) old(2)]
  have "is_i64 (currentBytes s - entry_size old + Size entry)"
    using fit sub Size_nonneg [of entry] by (simp add: is_i64_def)
  then have cur: "currentBytes s' = currentBytes s - entry_size old + Size entry"
    by (simp add: s' sub(1) i64_id)
  have "lru_inv s'"
  proof (rule lru_invI)
    show "distinct (lru s')" using dist by (simp add: s')
  next
    fix x assume "x \<in> set (lru s')"
    then show "x < nextElement s'" using lru_inv_bound [OF inv, of x] sets by (simp add: s'(2))
  next
    fix x assume x: "x \<in> set (lru s')"
    show "\<exists>e. elements s' x = Some e \<and> cache s' (entry_key e) = Some x \<and> 0 \<le> entry_size e"
    proof (cases "x = el")
      case True
      then show ?thesis using Size_nonneg [of entry] Some old(3) by (simp add: s' new_def)
    next
      case False
      have "x \<in> set (lru s)" using x sets by simp
      from lru_inv_elem [OF inv this] show ?thesis using False by (simp add: s')
    qed
  next
    fix k' x assume c: "cache s' k' = Some x"
    then have c': "cache s k' = Some x" by (simp add: s')
    from lru_inv_cache [OF inv c'] obtain e where
      e: "x \<in> set (lru s)" "elements s x = Some e" "entry_key e = k'" by blast
    show "x \<in> set (lru s') \<and> (\<exists>e. elements s' x = Some e \<and> entry_key e = k')"
    proof (cases "x = el")
      case True
      then show ?thesis using e old sets by (simp add: s' new_def)
    next
      case False
      then show ?thesis using e sets by (simp add: s')
    qed
  next
    have "total_size (elements s') (lru s')
        = Size entry + total_size ((elements s)(el \<mapsto> new)) (remove1 el (lru s))"
      by (simp add: s' total_size_def tracked_size_def new_def)
    also have "\<dots> = Size entry + total_size (elements s) (remove1 el (lru s))"
      using total_size_upd_other [OF notin] by simp
    also have "\<dots> = Size entry + (total_size (elements s) (lru s) - entry_size old)"
      using total_size_remove1 [OF old(1)] old(2) by (simp add: tracked_size_def)
    finally show "currentBytes s' = total_size (elements s') (lru s')"
      using lru_inv_total [OF inv] cur by simp
  next
    show "currentBytes s' < 2 ^ 63" using cur fit sub by simp
  qed
  then show ?thesis by (simp add: s'_def)
qed

lemma Set_insert_maxBytes: "maxBytes (Set_insert s k entry) = maxBytes s"
  by (simp add: Set_insert_def Let_def split: option.splits)

lemma lru_inv_unlink:
  assumes inv: "lru_inv s" and el: "el \<in> set (lru s)" and ev: "elements s el = Some ev"
  shows "lru_inv (unlink s el ev)"
proof -
  define s' where "s' = unlink s el ev"
  have s': "elements s' = elements s" "nextElement s' = nextElement s"
    "lru s' = remove1 el (lru s)" "cache s' = (cache s)(entry_key ev := None)"
    "currentBytes s' = i64 (currentBytes s - entry_size ev)"
    using el by (simp_all add: s'_def unlink_def Remove_def)
  have dist: "distinct (lru s)" by (rule lru_inv_distinct [OF inv])
  have mem: "\<And>x. x \<in> set (lru s') \<longleftrightarrow> x \<in> set (lru s) \<and> x \<noteq> el"
    using dist by (auto simp: s')
  note sub = lru_inv_sub [OF inv el ev]
  from lru_inv_elem [OF inv el] ev have cel: "cache s (entry_key ev) = Some el" by auto
  have "lru_inv s'"
  proof (rule lru_invI)
    show "distinct (lru s')" using dist by (simp add: s')
  next
    fix x assume "x \<in> set (lru s')"
    then show "x < nextElement s'" using lru_inv_bound [OF inv, of x] mem by (simp add: s'(2))
  next
    fix x assume x: "x \<in> set (lru s')"
    then have xl: "x \<in> set (lru s)" and ne: "x \<noteq> el" using mem by auto
    from lru_inv_elem [OF inv xl] obtain e where
      e: "elements s x = Some e" "cache s (entry_key e) = Some x" "0 \<le> entry_size e" by blast
    have "entry_key e \<noteq> entry_key ev" using e(2) cel ne by auto
    then show "\<exists>e. elements s' x = Some e \<and> cache s' (entry_key e) = Some x \<and> 0 \<le> entry_size e"
      using e by (simp add: s')
  next
    fix k x assume c: "cache s' k = Some x"
    then have k: "k \<noteq> entry_key ev" and c': "cache s k = Some x"
      by (auto simp: s' split: if_splits)
    from lru_inv_cache [OF inv c'] obtain e where
      e: "x \<in> set (lru s)" "elements s x = Some e" "entry_key e = k" by blast
    have "x \<noteq> el" using e ev k by auto
    then show "x \<in> set (lru s') \<and> (\<exists>e. elements s' x = Some e \<and> entry_key e = k)"
      using e mem by (simp add: s'(1))
  next
    show "currentBytes s' = total_size (elements s') (lru s')"
      using total_size_remove1 [OF el, of "elements s"] ev lru_inv_total [OF inv] sub(1)
      by (simp add: s' tracked_size_def)
  next
    show "currentBytes s' < 2 ^ 63" using sub lru_inv_lt [OF inv] by (simp add: s')
  qed
  then show ?thesis by (simp add: s'_def)
qed

lemma unlink_fields:
  "maxBytes (unlink s el ev) = maxBytes s" "elements (unlink s el ev) = elements s"
  by (simp_all add: unlink_def)

lemma Back_Some: "Back l = Some el \<Longrightarrow> l \<noteq> [] \<and> el = last l"
  by (auto simp: Back_def split: if_splits)

lemma remove1_last: "distinct l \<Longrightarrow> l \<noteq> [] \<Longrightarrow> remove1 (last l) l = butlast l"
proof -
  assume d: "distinct l" and ne: "l \<noteq> []"
  then have l: "l = butlast l @ [last l]" by simp
  have "last l \<notin> set (butlast l)" using d l by (metis distinct_butlast not_distinct_conv_prefix distinct_append distinct.simps(2) disjoint_iff list.set_intros(1))
  then have "remove1 (last l) (butlast l @ [last l]) = butlast l" by (simp add: remove1_append)
  then show ?thesis using l by simp
qed

lemma evict_spec:
  "lru_inv s \<Longrightarrow>
     lru_inv (evict s) \<and> maxBytes (evict s) = maxBytes s \<and> elements (evict s) = elements s
     \<and> (currentBytes (evict s) \<le> maxBytes s \<or> lru (evict s) = [])
     \<and> (\<exists>n \<le> length (lru s). lru (evict s) = take n (lru s)
          \<and> (\<forall>m. n < m \<and> m \<le> length (lru s) \<longrightarrow>
                maxBytes s < total_size (elements s) (take m (lru s))))"
proof (induction s rule: evict.induct)
  case (1 s)
  note inv = \<open>lru_inv s\<close>
  show ?case
  proof (cases "currentBytes s > maxBytes s")
    case False
    then have "evict s = s" by (simp add: evict.simps)
    then show ?thesis using inv False by (auto intro: exI [of _ "length (lru s)"])
  next
    case over: True
    show ?thesis
    proof (cases "Back (lru s)")
      case None
      then have e: "lru s = []" by (simp add: Back_def split: if_splits)
      have "evict s = s" using over None by (simp add: evict.simps)
      then show ?thesis using inv e by simp
    next
      case (Some el)
      from Back_Some [OF Some] have ne: "lru s \<noteq> []" and last: "el = last (lru s)" by auto
      then have el: "el \<in> set (lru s)" by simp
      from lru_inv_elem [OF inv el] obtain ev where ev: "elements s el = Some ev" by blast
      define s' where "s' = unlink s el ev"
      have ev_eq: "evict s = evict s'"
        using over Some ev by (subst evict.simps) (simp add: s'_def unlink_def)
      have inv': "lru_inv s'" unfolding s'_def by (rule lru_inv_unlink [OF inv el ev])
      have l': "lru s' = butlast (lru s)"
        using el last remove1_last [OF lru_inv_distinct [OF inv] ne]
        by (simp add: s'_def unlink_def Remove_def)
      have f': "maxBytes s' = maxBytes s" "elements s' = elements s"
        by (simp_all add: s'_def unlink_fields)
      from "1.IH" [OF over Some ev inv' [unfolded s'_def unlink_def]]
      have IH: "lru_inv (evict s') \<and> maxBytes (evict s') = maxBytes s' \<and> elements (evict s') = elements s'
         \<and> (currentBytes (evict s') \<le> maxBytes s' \<or> lru (evict s') = [])
         \<and> (\<exists>n \<le> length (lru s'). lru (evict s') = take n (lru s')
          \<and> (\<forall>m. n < m \<and> m \<le> length (lru s') \<longrightarrow>
                maxBytes s' < total_size (elements s') (take m (lru s'))))"
        by (simp add: s'_def unlink_def)
      then obtain n where n: "n \<le> length (lru s')" "lru (evict s') = take n (lru s')"
        "\<forall>m. n < m \<and> m \<le> length (lru s') \<longrightarrow> maxBytes s' < total_size (elements s') (take m (lru s'))"
        by blast
      have len: "length (lru s') = length (lru s) - 1" by (simp add: l')
      have tk0: "\<And>m. m \<le> length (lru s) - 1 \<Longrightarrow> take m (butlast (lru s)) = take m (lru s)"
        by (simp add: butlast_conv_take min_def)
      have tk: "\<And>m. m \<le> length (lru s') \<Longrightarrow> take m (lru s') = take m (lru s)"
        using tk0 len unfolding l' by simp
      have full: "maxBytes s < total_size (elements s) (take (length (lru s)) (lru s))"
        using over lru_inv_total [OF inv] by simp
      have min: "\<forall>m. n < m \<and> m \<le> length (lru s) \<longrightarrow> maxBytes s < total_size (elements s) (take m (lru s))"
      proof (intro allI impI)
        fix m assume m: "n < m \<and> m \<le> length (lru s)"
        show "maxBytes s < total_size (elements s) (take m (lru s))"
        proof (cases "m = length (lru s)")
          case True then show ?thesis using full by simp
        next
          case False
          then have "m \<le> length (lru s')" using m len by linarith
          then show ?thesis using n(3) m tk f' by auto
        qed
      qed
      have "n \<le> length (lru s)" using n(1) len by simp
      moreover have "lru (evict s) = take n (lru s)" using n(1,2) tk ev_eq by simp
      ultimately have ex: "\<exists>n \<le> length (lru s). lru (evict s) = take n (lru s)
          \<and> (\<forall>m. n < m \<and> m \<le> length (lru s) \<longrightarrow>
                maxBytes s < total_size (elements s) (take m (lru s)))"
        using min by blast
      show ?thesis using IH ex by (simp add: ev_eq f')
    qed
  qed
qed

lemma lru_ok_bound: "lru_ok s \<Longrightarrow> currentBytes s \<le> max 0 (maxBytes s)"
  by (auto simp: lru_ok_def lru_inv_def total_size_def)

lemma lru_ok_New: "lru_ok (NewInMemoryQuotaLRU maxMB)"
  using lru_inv_New [of maxMB] by (simp add: lru_ok_def NewInMemoryQuotaLRU_def)

lemma Set_spec:
  assumes ok: "lru_ok s" and fit: "max 0 (maxBytes s) + Size entry < 2 ^ 63"
  shows "lru_inv (Set_insert s k entry)"
    and "lru_ok (snd (Set s k entry))"
    and "maxBytes (snd (Set s k entry)) = maxBytes s"
    and "elements (snd (Set s k entry)) = elements (Set_insert s k entry)"
    and "\<exists>n \<le> length (lru (Set_insert s k entry)).
           lru (snd (Set s k entry)) = take n (lru (Set_insert s k entry))
           \<and> (\<forall>m. n < m \<and> m \<le> length (lru (Set_insert s k entry)) \<longrightarrow>
                maxBytes s < total_size (elements (Set_insert s k entry))
                               (take m (lru (Set_insert s k entry))))"
proof -
  have inv: "lru_inv s" using ok by (simp add: lru_ok_def)
  have "currentBytes s + Size entry < 2 ^ 63" using lru_ok_bound [OF ok] fit by simp
  then show inv1: "lru_inv (Set_insert s k entry)" by (rule lru_inv_Set_insert [OF inv])
  note sp = evict_spec [OF inv1, unfolded Set_insert_maxBytes]
  show "lru_ok (snd (Set s k entry))" using sp by (simp add: Set_def lru_ok_def)
  show "maxBytes (snd (Set s k entry)) = maxBytes s" using sp by (simp add: Set_def)
  show "elements (snd (Set s k entry)) = elements (Set_insert s k entry)" using sp by (simp add: Set_def)
  show "\<exists>n \<le> length (lru (Set_insert s k entry)).
           lru (snd (Set s k entry)) = take n (lru (Set_insert s k entry))
           \<and> (\<forall>m. n < m \<and> m \<le> length (lru (Set_insert s k entry)) \<longrightarrow>
                maxBytes s < total_size (elements (Set_insert s k entry))
                               (take m (lru (Set_insert s k entry))))"
    using sp by (simp add: Set_def)
qed

lemma Delete_spec:
  assumes ok: "lru_ok s"
  shows "lru_ok (snd (Delete s k))" and "maxBytes (snd (Delete s k)) = maxBytes s"
proof -
  have inv: "lru_inv s" using ok by (simp add: lru_ok_def)
  show "maxBytes (snd (Delete s k)) = maxBytes s"
    by (simp add: Delete_def split: option.splits)
  show "lru_ok (snd (Delete s k))"
  proof (cases "cache s k")
    case None
    then show ?thesis using ok by (simp add: Delete_def)
  next
    case (Some el)
    from lru_inv_cache [OF inv Some] obtain ev where
      ev: "el \<in> set (lru s)" "elements s el = Some ev" by blast
    have d: "snd (Delete s k) = unlink s el ev"
      using Some ev by (simp add: Delete_def unlink_def)
    have "lru s \<noteq> []" using ev(1) by auto
    then have le: "currentBytes s \<le> maxBytes s" using ok by (simp add: lru_ok_def)
    note sub = lru_inv_sub [OF inv ev]
    have "currentBytes (unlink s el ev) \<le> maxBytes (unlink s el ev)"
      using le sub by (simp add: unlink_def)
    then show ?thesis using lru_inv_unlink [OF inv ev] by (simp add: d lru_ok_def)
  qed
qed

lemma total_size_MoveToFront:
  "total_size h (MoveToFront l el) = total_size h l"
proof (cases "el \<in> set l")
  case True
  have "total_size h (el # remove1 el l) = tracked_size h el + total_size h (remove1 el l)"
    by (simp add: total_size_def)
  then show ?thesis using True total_size_remove1 [OF True, of h] by (simp add: MoveToFront_def)
next
  case False
  then show ?thesis by (simp add: MoveToFront_def)
qed

lemma Get_spec:
  assumes ok: "lru_ok s"
  shows "lru_ok (snd (Get s k))" and "maxBytes (snd (Get s k)) = maxBytes s"
proof -
  have inv: "lru_inv s" using ok by (simp add: lru_ok_def)
  show "maxBytes (snd (Get s k)) = maxBytes s"
    by (simp add: Get_def Get_read_def Get_promote_def split: option.splits)
  show "lru_ok (snd (Get s k))"
  proof (cases "cache s k")
    case None
    then show ?thesis using ok by (simp add: Get_def Get_read_def)
  next
    case (Some el)
    from lru_inv_cache [OF inv Some] have el: "el \<in> set (lru s)" by blast
    define s' where "s' = s\<lparr>lru := MoveToFront (lru s) el\<rparr>"
    have g: "snd (Get s k) = s'"
      using Some by (simp add: Get_def Get_read_def Get_promote_def s'_def)
    have dist: "distinct (lru s)" by (rule lru_inv_distinct [OF inv])
    have sets: "set (lru s') = set (lru s)" using el dist by (auto simp: s'_def MoveToFront_def)
    have "lru_inv s'"
    proof (rule lru_invI)
      show "distinct (lru s')" using dist el by (simp add: s'_def MoveToFront_def)
    next
      fix x assume "x \<in> set (lru s')"
      then show "x < nextElement s'" using lru_inv_bound [OF inv, of x] sets by (simp add: s'_def)
    next
      fix x assume "x \<in> set (lru s')"
      then have "x \<in> set (lru s)" using sets by simp
      from lru_inv_elem [OF inv this]
      show "\<exists>e. elements s' x = Some e \<and> cache s' (entry_key e) = Some x \<and> 0 \<le> entry_size e"
        by (simp add: s'_def)
    next
      fix k' x assume "cache s' k' = Some x"
      then have "cache s k' = Some x" by (simp add: s'_def)
      from lru_inv_cache [OF inv this]
      show "x \<in> set (lru s') \<and> (\<exists>e. elements s' x = Some e \<and> entry_key e = k')"
        using sets by (simp add: s'_def)
    next
      show "currentBytes s' = total_size (elements s') (lru s')"
        using lru_inv_total [OF inv] by (simp add: s'_def total_size_MoveToFront)
    next
      show "currentBytes s' < 2 ^ 63" using lru_inv_lt [OF inv] by (simp add: s'_def)
    qed
    moreover have "lru s' = [] \<longleftrightarrow> lru s = []" using sets by (metis set_empty)
    ultimately show ?thesis using ok by (simp add: g lru_ok_def) (simp add: s'_def)
  qed
qed

lemma apply_op_spec:
  assumes "lru_ok s" and "fits (maxBytes s) x"
  shows "lru_ok (apply_op s x) \<and> maxBytes (apply_op s x) = maxBytes s"
proof (cases x)
  case (OpSet k e)
  then show ?thesis using Set_spec(2,3) [OF assms(1), of e k] assms(2) by simp
next
  case (OpDelete k)
  then show ?thesis using Delete_spec [OF assms(1)] by simp
next
  case (OpGet k)
  then show ?thesis using Get_spec [OF assms(1)] by simp
qed

lemma run_ops_spec:
  "lru_ok s \<Longrightarrow> list_all (fits (maxBytes s)) ops \<Longrightarrow>
     lru_ok (run_ops s ops) \<and> maxBytes (run_ops s ops) = maxBytes s"
proof (induction ops arbitrary: s)
  case Nil
  then show ?case by (simp add: run_ops_def)
next
  case (Cons x ops)
  from Cons.prems have a: "lru_ok (apply_op s x) \<and> maxBytes (apply_op s x) = maxBytes s"
    using apply_op_spec [of s x] by simp
  then have "list_all (fits (maxBytes (apply_op s x))) ops" using Cons.prems by simp
  from Cons.IH [OF conjunct1 [OF a] this] a show ?case by (simp add: run_ops_def)
qed

lemma Set_insert_front:
  assumes inv: "lru_inv s"
  shows "\<exists>el rest new. lru (Set_insert s k entry) = el # rest
           \<and> elements (Set_insert s k entry) el = Some new
           \<and> entry_key new = k \<and> entry_size new = Size entry \<and> entry_value new = entry"
proof (cases "cache s k")
  case None
  show ?thesis unfolding Set_insert_new [OF None] by simp
next
  case (Some el)
  from lru_inv_cache [OF inv Some] obtain old where
    old: "el \<in> set (lru s)" "elements s el = Some old" "entry_key old = k" by blast
  show ?thesis unfolding Set_insert_old [OF Some old(2) old(1)] using old(3) by simp
qed

lemma evict_elements: "elements (evict s) = elements s"
proof (induction s rule: evict.induct)
  case (1 s)
  show ?case
  proof (cases "currentBytes s > maxBytes s")
    case False
    then show ?thesis by (simp add: evict.simps)
  next
    case True
    show ?thesis
    proof (cases "Back (lru s)")
      case None
      then show ?thesis using True by (simp add: evict.simps)
    next
      case (Some el)
      show ?thesis
      proof (cases "elements s el")
        case None
        then show ?thesis using True Some by (simp add: evict.simps)
      next
        case (Some ev)
        from "1.IH" [OF True \<open>Back (lru s) = Some el\<close> Some]
        show ?thesis using True \<open>Back (lru s) = Some el\<close> Some by (subst evict.simps) simp
      qed
    qed
  qed
qed

lemma apply_op_allocated:
  "elements s el \<noteq> None \<Longrightarrow> elements (apply_op s x) el \<noteq> None"
proof (cases x)
  case (OpSet k e)
  assume "elements s el \<noteq> None"
  then have "elements (Set_insert s k e) el \<noteq> None"
    by (auto simp: Set_insert_def Let_def split: option.splits)
  then show ?thesis using OpSet by (simp add: Set_def evict_elements)
next
  case (OpDelete k)
  assume "elements s el \<noteq> None"
  then show ?thesis using OpDelete by (simp add: Delete_def split: option.splits)
next
  case (OpGet k)
  assume "elements s el \<noteq> None"
  then show ?thesis using OpGet
    by (simp add: Get_def Get_read_def Get_promote_def split: option.splits)
qed

lemma run_ops_allocated:
  "elements s el \<noteq> None \<Longrightarrow> elements (run_ops s ops) el \<noteq> None"
proof (induction ops arbitrary: s)
  case Nil
  then show ?case by (simp add: run_ops_def)
next
  case (Cons x ops)
  from Cons.IH [OF apply_op_allocated [OF Cons.prems]] show ?case by (simp add: run_ops_def)
qed

text \<open>
  C3, amended: the exclusive section of \<open>Get\<close> does not look the key up again. Once
  the read section has found the key's element, whatever \<open>Set\<close>, \<open>Delete\<close> and
  \<open>Get\<close> calls run before the exclusive section, \<open>Get\<close> reports found with the
  entry the element holds at that moment; it moves the element to the front when the
  element is still linked in the list and leaves the list as it is otherwise.
\<close>

theorem Get_promote_without_recheck:
  assumes "lru_inv s" and "Get_read s k = Some el"
  shows "let s' = run_ops s ops in
           elements s' el \<noteq> None
           \<and> fst (Get_promote s' el) = (map_option entry_value (elements s' el), True)
           \<and> lru (snd (Get_promote s' el))
               = (if el \<in> set (lru s') then el # remove1 el (lru s') else lru s')"
proof -
  from assms have "cache s k = Some el" by (simp add: Get_read_def)
  from lru_inv_cache [OF assms(1) this] have "elements s el \<noteq> None" by auto
  then have "elements (run_ops s ops) el \<noteq> None" by (rule run_ops_allocated)
  then show ?thesis by (simp add: Get_promote_def MoveToFront_def Let_def)
qed

lemma store_one_inv: "lru_inv store_one"
proof -
  have "max 0 (maxBytes (NewInMemoryQuotaLRU 1)) + Size entry_ten_five < 2 ^ 63"
    by (simp add: NewInMemoryQuotaLRU_def i64_def Size_def entry_ten_five_def)
  from Set_spec(2) [OF lru_ok_New this] show ?thesis by (simp add: store_one_def lru_ok_def)
qed

lemma store_one_eval:
  "lru store_one = [0]" "cache store_one ''k'' = Some 0"
  "elements store_one 0 = Some \<lparr>entry_key = ''k'', entry_size = 0, entry_value = entry_ten_five\<rparr>"
  "currentBytes store_one = 0" "maxBytes store_one = 1048576"
  by (simp_all add: store_one_def Set_def Set_insert_def NewInMemoryQuotaLRU_def Size_def
      entry_ten_five_def PushFront_def i64_def evict.simps)

theorem Get_promote_without_recheck_witness:
  "lru_inv store_one \<and> Get_read store_one ''k'' = Some 0
   \<and> Get_read (run_ops store_one [OpDelete ''k'']) ''k'' = None
   \<and> fst (Get_promote (run_ops store_one [OpDelete ''k'']) 0) = (Some entry_ten_five, True)
   \<and> lru (snd (Get_promote (run_ops store_one [OpDelete ''k'']) 0)) = []"
proof -
  have r: "Get_read store_one ''k'' = Some 0" by (simp add: Get_read_def store_one_eval)
  have d: "elements (run_ops store_one [OpDelete ''k'']) = elements store_one"
    "lru (run_ops store_one [OpDelete ''k'']) = []"
    "cache (run_ops store_one [OpDelete ''k'']) ''k'' = None"
    by (simp_all add: run_ops_def Delete_def store_one_eval Remove_def)
  from Get_promote_without_recheck [OF store_one_inv r, of "[OpDelete ''k'']"]
  show ?thesis using store_one_inv r d by (simp add: store_one_eval Get_read_def Let_def)
qed

text \<open>
  C3, as the claim states it: when the entry is removed between the read section and the
  exclusive section, \<open>Get\<close> returns a miss. In \<open>store_one\<close> the read section finds
  element 0 for the key; after a \<open>Delete\<close> of the key a fresh \<open>Get\<close> misses, but the
  exclusive section of the first \<open>Get\<close> still returns the removed entry as found.
\<close>

theorem Get_returns_evicted_counterexample:
  "Get_read store_one ''k'' = Some 0
   \<and> fst (Get (snd (Delete store_one ''k'')) ''k'') = (None, False)
   \<and> fst (Get_promote (snd (Delete store_one ''k'')) 0) \<noteq> (None, False)
   \<and> fst (Get_promote (snd (Delete store_one ''k'')) 0) = (Some entry_ten_five, True)"
  by (simp add: Get_read_def Get_def Get_promote_def Delete_def store_one_eval Remove_def)

text \<open>
  C4, amended: for a store constructed with a byte quota that is not negative, and calls
  whose entry sizes keep the \<open>int64\<close> running total from overflowing (\<open>fits\<close>): after
  any sequence of \<open>Set\<close>, \<open>Delete\<close> and \<open>Get\<close> calls, once a further \<open>Set\<close> returns,
  the running total does not exceed the quota and is the sum of the sizes recorded for the
  entries still linked; the list \<open>Set\<close> leaves is a prefix of the list right after the
  insertion (entries are dropped from the least-recently-used end only, their recorded
  sizes untouched), and it is the longest prefix that had to go: every longer prefix has a
  total above the quota.
\<close>

theorem Set_stays_within_quota:
  assumes quota: "0 \<le> maxBytes (NewInMemoryQuotaLRU maxMB)"
    and ops: "list_all (fits (maxBytes (NewInMemoryQuotaLRU maxMB))) ops"
    and fit: "fits (maxBytes (NewInMemoryQuotaLRU maxMB)) (OpSet k entry)"
  shows "let s0 = run_ops (NewInMemoryQuotaLRU maxMB) ops;
             s1 = Set_insert s0 k entry;
             s2 = snd (Set s0 k entry)
         in currentBytes s2 \<le> maxBytes s2
            \<and> currentBytes s2 = total_size (elements s2) (lru s2)
            \<and> elements s2 = elements s1
            \<and> (\<exists>n \<le> length (lru s1). lru s2 = take n (lru s1)
                 \<and> (\<forall>m. n < m \<and> m \<le> length (lru s1) \<longrightarrow>
                       maxBytes s1 < total_size (elements s1) (take m (lru s1))))"
proof -
  define s0 where "s0 = run_ops (NewInMemoryQuotaLRU maxMB) ops"
  from run_ops_spec [OF lru_ok_New ops]
  have ok0: "lru_ok s0" and q0: "maxBytes s0 = maxBytes (NewInMemoryQuotaLRU maxMB)"
    by (simp_all add: s0_def)
  have fit0: "max 0 (maxBytes s0) + Size entry < 2 ^ 63" using fit q0 by simp
  note sp = Set_spec [OF ok0 fit0, of k]
  have inv2: "lru_inv (snd (Set s0 k entry))" using sp(2) by (simp add: lru_ok_def)
  have "currentBytes (snd (Set s0 k entry)) \<le> maxBytes (snd (Set s0 k entry))"
  proof (cases "lru (snd (Set s0 k entry)) = []")
    case True
    then have "currentBytes (snd (Set s0 k entry)) = 0"
      using lru_inv_total [OF inv2] by (simp add: total_size_def)
    then show ?thesis using quota q0 sp(3) by simp
  next
    case False
    then show ?thesis using sp(2) by (simp add: lru_ok_def)
  qed
  moreover note lru_inv_total [OF inv2] sp(4)
  moreover have "\<exists>n \<le> length (lru (Set_insert s0 k entry)).
       lru (snd (Set s0 k entry)) = take n (lru (Set_insert s0 k entry))
       \<and> (\<forall>m. n < m \<and> m \<le> length (lru (Set_insert s0 k entry)) \<longrightarrow>
             maxBytes (Set_insert s0 k entry)
               < total_size (elements (Set_insert s0 k entry)) (take m (lru (Set_insert s0 k entry))))"
    using sp(5) by (simp add: Set_insert_maxBytes)
  ultimately show ?thesis unfolding Let_def s0_def [symmetric] by blast
qed

theorem Set_stays_within_quota_witness:
  "0 \<le> maxBytes (NewInMemoryQuotaLRU 0)
   \<and> list_all (fits (maxBytes (NewInMemoryQuotaLRU 0))) [OpSet ''a'' entry_ten_five]
   \<and> fits (maxBytes (NewInMemoryQuotaLRU 0)) (OpSet ''b'' entry_two_cookies)
   \<and> lru (Set_insert (run_ops (NewInMemoryQuotaLRU 0) [OpSet ''a'' entry_ten_five]) ''b'' entry_two_cookies) = [1, 0]
   \<and> currentBytes (Set_insert (run_ops (NewInMemoryQuotaLRU 0) [OpSet ''a'' entry_ten_five]) ''b'' entry_two_cookies) = 32
   \<and> currentBytes (snd (Set (run_ops (NewInMemoryQuotaLRU 0) [OpSet ''a'' entry_ten_five]) ''b'' entry_two_cookies))
       \<le> maxBytes (snd (Set (run_ops (NewInMemoryQuotaLRU 0) [OpSet ''a'' entry_ten_five]) ''b'' entry_two_cookies))"
proof -
  have h: "0 \<le> maxBytes (NewInMemoryQuotaLRU 0)"
    "list_all (fits (maxBytes (NewInMemoryQuotaLRU 0))) [OpSet ''a'' entry_ten_five]"
    "fits (maxBytes (NewInMemoryQuotaLRU 0)) (OpSet ''b'' entry_two_cookies)"
    by (simp_all add: NewInMemoryQuotaLRU_def i64_def Size_def entry_ten_five_def entry_two_cookies_def)
  have e: "lru (Set_insert (run_ops (NewInMemoryQuotaLRU 0) [OpSet ''a'' entry_ten_five]) ''b'' entry_two_cookies) = [1, 0]"
    "currentBytes (Set_insert (run_ops (NewInMemoryQuotaLRU 0) [OpSet ''a'' entry_ten_five]) ''b'' entry_two_cookies) = 32"
    by code_simp+
  note c = Set_stays_within_quota [OF h, unfolded Let_def, THEN conjunct1]
  show ?thesis by (intro conjI h e c)
qed

text \<open>
  C4, as the claim states it: once a \<open>Set\<close> returns, the running total does not exceed
  the quota. A store built with \<open>maxMB = -1\<close> has the quota \<open>-1048576\<close>; a \<open>Set\<close>
  evicts everything, the loop stops at the empty list, and the total 0 is above the quota.
\<close>

theorem Set_negative_quota_counterexample:
  "\<not> currentBytes (snd (Set (NewInMemoryQuotaLRU (- 1)) ''k'' entry_ten_five))
       \<le> maxBytes (snd (Set (NewInMemoryQuotaLRU (- 1)) ''k'' entry_ten_five))"
  by code_simp

lemma take_Cons_pos: "0 < n \<Longrightarrow> take n (x # xs) = x # take (n - 1) xs"
  by (cases n) simp_all

text \<open>
  C10, amended: on a store reached from its constructor by any sequence of calls (entry
  sizes keeping the \<open>int64\<close> total from overflowing), \<open>Set\<close> returns no error; when the
  \<open>Size\<close> of the entry exceeds the quota, the entry and every older entry are evicted
  before \<open>Set\<close> returns and a \<open>Get\<close> for the key right after reports not-found; when
  the \<open>Size\<close> is at most the quota, that \<open>Get\<close> finds the entry. So a store of quota 0
  retains no entry of positive \<open>Size\<close>, and does retain an entry of \<open>Size\<close> 0.
\<close>

theorem Set_retains_iff_fits_quota:
  assumes ops: "list_all (fits (maxBytes (NewInMemoryQuotaLRU maxMB))) ops"
    and fit: "fits (maxBytes (NewInMemoryQuotaLRU maxMB)) (OpSet k entry)"
  shows "let s0 = run_ops (NewInMemoryQuotaLRU maxMB) ops;
             s2 = snd (Set s0 k entry)
         in fst (Set s0 k entry) = None
            \<and> (maxBytes s0 < Size entry \<longrightarrow>
                 lru s2 = [] \<and> cache s2 = Map.empty \<and> fst (Get s2 k) = (None, False))
            \<and> (Size entry \<le> maxBytes s0 \<longrightarrow> fst (Get s2 k) = (Some entry, True))"
proof -
  define s0 where "s0 = run_ops (NewInMemoryQuotaLRU maxMB) ops"
  define s1 where "s1 = Set_insert s0 k entry"
  define s2 where "s2 = snd (Set s0 k entry)"
  from run_ops_spec [OF lru_ok_New ops]
  have ok0: "lru_ok s0" and q0: "maxBytes s0 = maxBytes (NewInMemoryQuotaLRU maxMB)"
    by (simp_all add: s0_def)
  have fit0: "max 0 (maxBytes s0) + Size entry < 2 ^ 63" using fit q0 by simp
  note sp = Set_spec [OF ok0 fit0, of k, folded s1_def s2_def]
  have inv2: "lru_inv s2" using sp(2) by (simp add: lru_ok_def)
  from Set_insert_front [OF conjunct1 [OF ok0 [unfolded lru_ok_def]], of k entry] obtain el rest new where
    front: "lru s1 = el # rest" "elements s1 el = Some new"
      "entry_key new = k" "entry_size new = Size entry" "entry_value new = entry"
    unfolding s1_def by blast
  from sp(5) obtain n where n: "n \<le> length (lru s1)" "lru s2 = take n (lru s1)"
    "\<forall>m. n < m \<and> m \<le> length (lru s1) \<longrightarrow> maxBytes s0 < total_size (elements s1) (take m (lru s1))"
    by blast
  have tr: "tracked_size (elements s2) el = Size entry"
    using front sp(4) by (simp add: tracked_size_def)
  have big: "lru s2 = []" if "maxBytes s0 < Size entry"
  proof (rule ccontr)
    assume ne: "lru s2 \<noteq> []"
    then have "0 < n" using n(2) by (cases n) simp_all
    then have "el \<in> set (lru s2)" using n(2) front(1) by (simp add: take_Cons_pos)
    from total_size_member [OF lru_inv_sizes [OF inv2] this] tr lru_inv_total [OF inv2]
    have "Size entry \<le> currentBytes s2" by simp
    moreover have "currentBytes s2 \<le> maxBytes s0" using sp(2,3) ne by (simp add: lru_ok_def)
    ultimately show False using that by simp
  qed
  have gone: "cache s2 = Map.empty \<and> fst (Get s2 k) = (None, False)" if e: "lru s2 = []"
  proof -
    have "cache s2 x = None" for x
    proof (cases "cache s2 x")
      case (Some y)
      from lru_inv_cache [OF inv2 Some] e show ?thesis by simp
    qed simp
    then show ?thesis by (auto simp: Get_def Get_read_def)
  qed
  have kept: "fst (Get s2 k) = (Some entry, True)" if le: "Size entry \<le> maxBytes s0"
  proof -
    have "0 < n"
    proof (rule ccontr)
      assume "\<not> 0 < n"
      then have "n < 1 \<and> 1 \<le> length (lru s1)" using front(1) by simp
      with n(3) have "maxBytes s0 < total_size (elements s1) (take 1 (lru s1))" by blast
      then show False using le front by (simp add: total_size_def tracked_size_def)
    qed
    then have "el \<in> set (lru s2)" using n(2) front(1) by (simp add: take_Cons_pos)
    from lru_inv_elem [OF inv2 this] front sp(4) have "cache s2 k = Some el" by auto
    then show ?thesis using front sp(4) by (simp add: Get_def Get_read_def Get_promote_def)
  qed
  have "fst (Set s0 k entry) = None" by (simp add: Set_def)
  then show ?thesis
    unfolding Let_def s0_def [symmetric] s2_def [symmetric] using big gone kept by blast
qed

theorem Set_retains_iff_fits_quota_witness:
  "list_all (fits (maxBytes (NewInMemoryQuotaLRU 0))) [OpSet ''a'' entry_ten_five]
   \<and> fits (maxBytes (NewInMemoryQuotaLRU 0)) (OpSet ''b'' entry_two_cookies)
   \<and> maxBytes (run_ops (NewInMemoryQuotaLRU 0) [OpSet ''a'' entry_ten_five]) < Size entry_two_cookies
   \<and> fst (Set (run_ops (NewInMemoryQuotaLRU 0) [OpSet ''a'' entry_ten_five]) ''b'' entry_two_cookies) = None
   \<and> fst (Get (snd (Set (run_ops (NewInMemoryQuotaLRU 0) [OpSet ''a'' entry_ten_five]) ''b'' entry_two_cookies)) ''b'')
       = (None, False)"
proof -
  have h: "list_all (fits (maxBytes (NewInMemoryQuotaLRU 0))) [OpSet ''a'' entry_ten_five]"
    "fits (maxBytes (NewInMemoryQuotaLRU 0)) (OpSet ''b'' entry_two_cookies)"
    by (simp_all add: NewInMemoryQuotaLRU_def i64_def Size_def entry_ten_five_def entry_two_cookies_def)
  have big: "maxBytes (run_ops (NewInMemoryQuotaLRU 0) [OpSet ''a'' entry_ten_five]) < Size entry_two_cookies"
    by code_simp
  note t = Set_retains_iff_fits_quota [OF h, unfolded Let_def]
  from t big show ?thesis using h by blast
qed

text \<open>
  C10, as the claim states it: a store constructed with a quota of 0 megabytes never
  retains any entry. An entry with an empty body and no headers has \<open>Size\<close> 0, which is
  not above the quota 0: it is not evicted, and the \<open>Get\<close> after its \<open>Set\<close> finds it.
\<close>

theorem quota_zero_retains_empty_entry_counterexample:
  "fst (Set (NewInMemoryQuotaLRU 0) ''k'' entry_ten_five) = None
   \<and> fst (Get (snd (Set (NewInMemoryQuotaLRU 0) ''k'' entry_ten_five)) ''k'') \<noteq> (None, False)
   \<and> fst (Get (snd (Set (NewInMemoryQuotaLRU 0) ''k'' entry_ten_five)) ''k'') = (Some entry_ten_five, True)"
  by code_simp

section \<open>Properties of the recorder and the middleware\<close>

lemma header_call_keeps:
  assumes "keeps key c" and "map_of h key = Some (v # rest)"
  shows "\<exists>rest'. map_of (header_call h c) key = Some (v # rest')"
  using assms
  by (cases c)
     (auto simp: Header_Add_def Header_Set_def Header_Del_def Header_values_def Let_def
                 update_conv' delete_conv')

lemma foldl_header_call_keeps:
  "list_all (keeps key) cs \<Longrightarrow> map_of h key = Some (v # rest) \<Longrightarrow>
     \<exists>rest'. map_of (foldl header_call h cs) key = Some (v # rest')"
proof (induction cs arbitrary: h rest)
  case Nil
  then show ?case by simp
next
  case (Cons c cs)
  from Cons.prems have "keeps key c" by simp
  from header_call_keeps [OF this Cons.prems(2)] obtain r where
    "map_of (header_call h c) key = Some (v # r)" by blast
  from Cons.IH [OF _ this] Cons.prems(1) show ?case by simp
qed

lemma canon_status: "CanonicalMIMEHeaderKey ''X-Cache-Status'' = ''X-Cache-Status''"
  by code_simp

lemma canon_http_Error:
  "CanonicalMIMEHeaderKey ''Content-Length'' = ''Content-Length''"
  "CanonicalMIMEHeaderKey ''Content-Type'' = ''Content-Type''"
  "CanonicalMIMEHeaderKey ''X-Content-Type-Options'' = ''X-Content-Type-Options''"
  by code_simp+

lemma Flush_appends:
  "\<exists>added. snd (Flush r w) = w @ added \<and> list_all (keeps key) added
            \<and> (\<forall>k v. HeaderSet k v \<notin> set added)"
proof (cases "written r")
  case True
  then show ?thesis by (simp add: Flush_def)
next
  case False
  define hs where "hs = concat (map (\<lambda>(k, vv). map (HeaderAdd k) vv) (Header_Clone (header r)))"
  have a: "\<forall>c \<in> set hs. \<exists>k v. c = HeaderAdd k v" by (auto simp: hs_def)
  then have "list_all (keeps key) hs" by (auto simp: list_all_iff)
  moreover have "\<forall>k v. HeaderSet k v \<notin> set hs" using a by auto
  moreover have "snd (Flush r w) = w @ hs @ [WriteHeaderCall (status r)] @ (if length (body r) > 0 then [WriteCall (body r)] else [])"
    using False by (simp add: Flush_def Let_def hs_def)
  ultimately show ?thesis by auto
qed

lemma header_call_avoids:
  assumes "avoids key c" and "map_of h key = None"
  shows "map_of (header_call h c) key = None"
  using assms
  by (cases c)
     (auto simp: Header_Add_def Header_Set_def Header_Del_def Let_def update_conv' delete_conv')

lemma foldl_header_call_avoids:
  "list_all (avoids key) cs \<Longrightarrow> map_of h key = None \<Longrightarrow>
     map_of (foldl header_call h cs) key = None"
proof (induction cs arbitrary: h)
  case Nil
  then show ?case by simp
next
  case (Cons c cs)
  from Cons.prems have "avoids key c" by simp
  from Cons.IH [OF _ header_call_avoids [OF this Cons.prems(2)]] Cons.prems(1)
  show ?case by simp
qed

lemma Flush_from_empty: "snd (Flush r w) = w @ snd (Flush r [])"
  by (simp add: Flush_def Let_def)

lemma http_Error_from_empty: "http_Error w msg code = w @ http_Error [] msg code"
  by (simp add: http_Error_def)

lemma Flush_keeps: "list_all (keeps key) (snd (Flush r []))"
  using Flush_appends [of r "[]" key] by auto

lemma http_Error_keeps:
  "list_all (keeps ''X-Cache-Status'') (http_Error [] ''internal server error'' 500)"
  by (simp add: http_Error_def canon_http_Error)

lemma http_Error_avoids:
  "list_all (avoids ''X-Cache-Status'') (http_Error [] ''internal server error'' 500)"
  by (simp add: http_Error_def canon_http_Error)

lemma Flush_avoids:
  assumes "\<forall>k \<in> fst ` set (header r). CanonicalMIMEHeaderKey k \<noteq> key"
  shows "list_all (avoids key) (snd (Flush r []))"
proof (cases "written r")
  case True
  then show ?thesis by (simp add: Flush_def)
next
  case False
  have "list_all (avoids key) (concat (map (\<lambda>(k, vv). map (HeaderAdd k) vv) (header r)))"
    using assms by (force simp: list_all_iff)
  then show ?thesis using False by (simp add: Flush_def Let_def Header_Clone_def)
qed

lemma recorder_call_written: "written (recorder_call r c) = written r"
  by (cases c) (simp_all add: WriteHeader_def Write_def Let_def)

lemma ServeHTTP_recorder_written: "written (snd (ServeHTTP_recorder steps r)) = written r"
  by (induction steps r rule: ServeHTTP_recorder.induct) (simp_all add: recorder_call_written)

lemma serve_miss_eq:
  assumes "ServeHTTP_recorder (handler request) (NewResponseRecorder (MaxBodyBytes cfg)) = (p, r)"
  shows "serve_miss cfg handler clock cacheKey w request =
           (w @ (if p then http_Error [] ''internal server error'' 500 else snd (Flush r [])),
            if \<not> p \<and> ShouldCache cfg (status r) \<and> \<not> capReached r
            then [SetTask cacheKey (captured_entry cfg r (at_Now clock))] else [])"
proof -
  have "written r = False"
    using ServeHTTP_recorder_written [of "handler request" "NewResponseRecorder (MaxBodyBytes cfg)"]
      assms by (simp add: NewResponseRecorder_def)
  then show ?thesis
    using assms Flush_from_empty [of r w] http_Error_from_empty [of w]
    by (simp add: serve_miss_def Let_def recorder_StatusCode_def)
qed

text \<open>
  C2, amended: for a cacheable request (GET or HEAD, non-empty key), with \<open>p\<close> and \<open>r\<close>
  the outcome of the handler on a new recorder (whether it panicked, and the capture).
  A lookup that finds no entry makes, after the calls already made on the writer, the call
  \<open>Header().Set("X-Cache-Status", "MISS")\<close> and then delivers the capture with \<open>Flush\<close>
  (the error response after a panic), and the response header reads \<open>MISS\<close>. A lookup
  that finds a rotten entry makes exactly the same calls except that one: the delivery
  alone, so that a response whose writer and capture have no \<open>X-Cache-Status\<close> header
  carries none. Both start the same store task and leave the store as \<open>Get\<close> left it.
\<close>

theorem miss_diagnostic_only_when_not_found:
  assumes "Method request = ''GET'' \<or> Method request = ''HEAD''"
    and "KeyGenerator cfg request \<noteq> []"
    and "store_Get store (KeyGenerator cfg request) = ((found, cacheHit), store')"
    and "ServeHTTP_recorder (handler request) (NewResponseRecorder (MaxBodyBytes cfg)) = (p, r)"
  shows "(\<not> cacheHit \<longrightarrow>
            writer_after (NewCacheMiddleware store_Get (Some cfg) handler clock store w request)
              = w @ [HeaderSet ''X-Cache-Status'' ''MISS'']
                  @ (if p then http_Error [] ''internal server error'' 500 else snd (Flush r []))
            \<and> Header_Get (writer_header
                 (writer_after (NewCacheMiddleware store_Get (Some cfg) handler clock store w request)))
                 ''X-Cache-Status'' = ''MISS'')
       \<and> (cacheHit \<longrightarrow> (\<forall>e. found = Some e \<longrightarrow> IsRotten e (at_IsRotten clock) \<longrightarrow>
            writer_after (NewCacheMiddleware store_Get (Some cfg) handler clock store w request)
              = w @ (if p then http_Error [] ''internal server error'' 500 else snd (Flush r []))
            \<and> (map_of (writer_header w) ''X-Cache-Status'' = None \<longrightarrow>
                 (\<forall>k \<in> fst ` set (header r). CanonicalMIMEHeaderKey k \<noteq> ''X-Cache-Status'') \<longrightarrow>
                 map_of (writer_header
                   (writer_after (NewCacheMiddleware store_Get (Some cfg) handler clock store w request)))
                   ''X-Cache-Status'' = None
                 \<and> Header_Get (writer_header
                   (writer_after (NewCacheMiddleware store_Get (Some cfg) handler clock store w request)))
                   ''X-Cache-Status'' = [])))
       \<and> ((\<not> cacheHit \<or> (\<exists>e. found = Some e \<and> IsRotten e (at_IsRotten clock))) \<longrightarrow>
            spawned (NewCacheMiddleware store_Get (Some cfg) handler clock store w request)
              = (if \<not> p \<and> ShouldCache cfg (status r) \<and> \<not> capReached r
                 then [SetTask (KeyGenerator cfg request) (captured_entry cfg r (at_Now clock))]
                 else [])
            \<and> store_after (NewCacheMiddleware store_Get (Some cfg) handler clock store w request)
              = store')"
proof -
  define R where "R = NewCacheMiddleware store_Get (Some cfg) handler clock store w request"
  define tail where
    "tail = (if p then http_Error [] ''internal server error'' 500 else snd (Flush r []))"
  define tasks where
    "tasks = (if \<not> p \<and> ShouldCache cfg (status r) \<and> \<not> capReached r
              then [SetTask (KeyGenerator cfg request) (captured_entry cfg r (at_Now clock))]
              else [])"
  have sm: "serve_miss cfg handler clock (KeyGenerator cfg request) w' request = (w' @ tail, tasks)"
    for w'
    using serve_miss_eq [where handler = handler and request = request and cfg = cfg
        and p = p and r = r and clock = clock and cacheKey = "KeyGenerator cfg request"
        and w = w', OF assms(4)]
    by (simp add: tail_def tasks_def)
  have keepsT: "list_all (keeps ''X-Cache-Status'') tail"
    by (simp add: tail_def Flush_keeps http_Error_keeps)
  have miss: "writer_after R = w @ [HeaderSet ''X-Cache-Status'' ''MISS''] @ tail
              \<and> spawned R = tasks \<and> store_after R = store'" if "\<not> cacheHit"
    using assms(1-3) that sm [of "w @ [HeaderSet ''X-Cache-Status'' ''MISS'']"]
    by (auto simp: R_def NewCacheMiddleware_def Let_def split: option.splits)
  have rot: "writer_after R = w @ tail \<and> spawned R = tasks \<and> store_after R = store'"
    if "cacheHit" "found = Some e" "IsRotten e (at_IsRotten clock)" for e
    using assms(1-3) that sm [of w]
    by (auto simp: R_def NewCacheMiddleware_def Let_def split: option.splits)
  have missH: "Header_Get (writer_header R') ''X-Cache-Status'' = ''MISS''"
    if "R' = w @ [HeaderSet ''X-Cache-Status'' ''MISS''] @ tail" for R'
  proof -
    have "map_of (foldl header_call [] (w @ [HeaderSet ''X-Cache-Status'' ''MISS''])) ''X-Cache-Status''
            = Some [''MISS'']"
      by (simp add: Header_Set_def canon_status update_conv')
    from foldl_header_call_keeps [OF keepsT this] obtain rest where
      "map_of (foldl header_call [] ((w @ [HeaderSet ''X-Cache-Status'' ''MISS'']) @ tail))
         ''X-Cache-Status'' = Some (''MISS'' # rest)"
      by auto
    then show ?thesis
      using that by (simp add: writer_header_def Header_Get_def Header_values_def canon_status)
  qed
  have rotH: "map_of (writer_header (w @ tail)) ''X-Cache-Status'' = None
              \<and> Header_Get (writer_header (w @ tail)) ''X-Cache-Status'' = []"
    if a: "map_of (writer_header w) ''X-Cache-Status'' = None"
      and b: "\<forall>k \<in> fst ` set (header r). CanonicalMIMEHeaderKey k \<noteq> ''X-Cache-Status''"
  proof -
    have "list_all (avoids ''X-Cache-Status'') tail"
      using Flush_avoids [OF b] by (simp add: tail_def http_Error_avoids)
    from foldl_header_call_avoids [OF this a [unfolded writer_header_def]]
    show ?thesis
      by (simp add: writer_header_def Header_Get_def Header_values_def canon_status)
  qed
  show ?thesis
    unfolding R_def [symmetric] tail_def [symmetric] tasks_def [symmetric]
    using miss rot missH rotH by (metis (no_types, lifting))
qed

theorem miss_diagnostic_only_when_not_found_witness:
  "(Method get_root = ''GET'' \<or> Method get_root = ''HEAD'')
   \<and> KeyGenerator test_config get_root \<noteq> []
   \<and> fst (Get store_rotten (KeyGenerator test_config get_root)) = (Some entry_ten_five, True)
   \<and> IsRotten entry_ten_five (at_IsRotten (clock_at 16))
   \<and> fst (Get (NewInMemoryQuotaLRU 1) (KeyGenerator test_config get_root)) = (None, False)
   \<and> writer_after (NewCacheMiddleware Get (Some test_config) hello_handler (clock_at 16)
        store_rotten [] get_root)
       = [WriteHeaderCall 200, WriteCall ''hell'']
   \<and> Header_Get (writer_header (writer_after
        (NewCacheMiddleware Get (Some test_config) hello_handler (clock_at 16)
           store_rotten [] get_root))) ''X-Cache-Status'' = []
   \<and> writer_after (NewCacheMiddleware Get (Some test_config) hello_handler (clock_at 16)
        (NewInMemoryQuotaLRU 1) [] get_root)
       = [HeaderSet ''X-Cache-Status'' ''MISS'', WriteHeaderCall 200, WriteCall ''hell'']
   \<and> Header_Get (writer_header (writer_after
        (NewCacheMiddleware Get (Some test_config) hello_handler (clock_at 16)
           (NewInMemoryQuotaLRU 1) [] get_root))) ''X-Cache-Status'' = ''MISS''"
proof -
  define r where
    "r = snd (ServeHTTP_recorder (hello_handler get_root)
               (NewResponseRecorder (MaxBodyBytes test_config)))"
  have h: "Method get_root = ''GET'' \<or> Method get_root = ''HEAD''"
    "KeyGenerator test_config get_root \<noteq> []"
    by (simp_all add: get_root_def test_config_def DefaultKeyGenerator_def)
  have gr: "fst (Get store_rotten (KeyGenerator test_config get_root)) = (Some entry_ten_five, True)"
    by code_simp
  then have gr': "Get store_rotten (KeyGenerator test_config get_root)
      = ((Some entry_ten_five, True), snd (Get store_rotten (KeyGenerator test_config get_root)))"
    by (simp add: prod_eq_iff)
  have gn: "fst (Get (NewInMemoryQuotaLRU 1) (KeyGenerator test_config get_root)) = (None, False)"
    by code_simp
  then have gn': "Get (NewInMemoryQuotaLRU 1) (KeyGenerator test_config get_root)
      = ((None, False), snd (Get (NewInMemoryQuotaLRU 1) (KeyGenerator test_config get_root)))"
    by (simp add: prod_eq_iff)
  have "fst (ServeHTTP_recorder (hello_handler get_root)
               (NewResponseRecorder (MaxBodyBytes test_config))) = False"
    by code_simp
  then have pr: "ServeHTTP_recorder (hello_handler get_root)
               (NewResponseRecorder (MaxBodyBytes test_config)) = (False, r)"
    by (simp add: prod_eq_iff r_def)
  have rot: "IsRotten entry_ten_five (at_IsRotten (clock_at 16))" by code_simp
  have fl: "snd (Flush r []) = [WriteHeaderCall 200, WriteCall ''hell'']"
    unfolding r_def by code_simp
  have hd: "header r = []" unfolding r_def by code_simp
  have t1: "writer_after (NewCacheMiddleware Get (Some test_config) hello_handler (clock_at 16)
        store_rotten [] get_root) = [] @ (if False then http_Error [] ''internal server error'' 500 else snd (Flush r []))
     \<and> (map_of (writer_header []) ''X-Cache-Status'' = None \<longrightarrow>
                 (\<forall>k \<in> fst ` set (header r). CanonicalMIMEHeaderKey k \<noteq> ''X-Cache-Status'') \<longrightarrow>
          map_of (writer_header (writer_after (NewCacheMiddleware Get (Some test_config) hello_handler (clock_at 16)
        store_rotten [] get_root))) ''X-Cache-Status'' = None \<and>
          Header_Get (writer_header (writer_after (NewCacheMiddleware Get (Some test_config) hello_handler (clock_at 16)
        store_rotten [] get_root))) ''X-Cache-Status'' = [])"
    using miss_diagnostic_only_when_not_found
      [where store_Get = Get and store = store_rotten and request = get_root
         and cfg = test_config and found = "Some entry_ten_five" and cacheHit = True
         and store' = "snd (Get store_rotten (KeyGenerator test_config get_root))"
         and w = "[]" and clock = "clock_at 16" and handler = hello_handler
         and p = False and r = r, OF h gr' pr] rot
    by blast
  have t2: "writer_after (NewCacheMiddleware Get (Some test_config) hello_handler (clock_at 16)
        (NewInMemoryQuotaLRU 1) [] get_root) = [] @ [HeaderSet ''X-Cache-Status'' ''MISS''] @ (if False then http_Error [] ''internal server error'' 500 else snd (Flush r []))
     \<and> Header_Get (writer_header (writer_after (NewCacheMiddleware Get (Some test_config) hello_handler (clock_at 16)
        (NewInMemoryQuotaLRU 1) [] get_root))) ''X-Cache-Status'' = ''MISS''"
    using miss_diagnostic_only_when_not_found
      [where store_Get = Get and store = "NewInMemoryQuotaLRU 1" and request = get_root
         and cfg = test_config and found = None and cacheHit = False
         and store' = "snd (Get (NewInMemoryQuotaLRU 1) (KeyGenerator test_config get_root))"
         and w = "[]" and clock = "clock_at 16" and handler = hello_handler
         and p = False and r = r, OF h gn' pr]
    by blast
  have e: "map_of (writer_header []) ''X-Cache-Status'' = None" by (simp add: writer_header_def)
  have a1: "writer_after (NewCacheMiddleware Get (Some test_config) hello_handler (clock_at 16)
        store_rotten [] get_root) = [WriteHeaderCall 200, WriteCall ''hell'']"
    using t1 by (simp add: fl)
  have a2: "Header_Get (writer_header (writer_after (NewCacheMiddleware Get (Some test_config) hello_handler (clock_at 16)
        store_rotten [] get_root))) ''X-Cache-Status'' = []"
  proof -
    have nk: "\<forall>k \<in> fst ` set (header r). CanonicalMIMEHeaderKey k \<noteq> ''X-Cache-Status''"
      by (simp add: hd)
    from conjunct2 [OF t1] e nk show ?thesis by blast
  qed
  have a3: "writer_after (NewCacheMiddleware Get (Some test_config) hello_handler (clock_at 16)
        (NewInMemoryQuotaLRU 1) [] get_root)
       = [HeaderSet ''X-Cache-Status'' ''MISS'', WriteHeaderCall 200, WriteCall ''hell'']"
    using t2 by (simp add: fl)
  show ?thesis by (intro conjI h gr rot gn a1 a2 a3 conjunct2 [OF t2])
qed

text \<open>
  C2, as the claim states it: a lookup that finds no entry and a lookup that finds a
  rotten entry set the same cache-status value. \<open>store_rotten\<close> holds an entry created
  at 0 with TTL 10 and SWR 5 under the request's key; at time 16 it is rotten, \<open>Get\<close>
  finds it, and the response has no \<open>X-Cache-Status\<close> header, while the same request on
  an empty store gets \<open>MISS\<close>.
\<close>

theorem rotten_lookup_sets_no_miss_counterexample:
  "fst (Get store_rotten ''cache:GET:/'') = (Some entry_ten_five, True)
   \<and> IsRotten entry_ten_five 16
   \<and> Header_Get (writer_header (writer_after
        (NewCacheMiddleware Get (Some test_config) hello_handler (clock_at 16)
           store_rotten [] get_root))) ''X-Cache-Status'' \<noteq> ''MISS''
   \<and> Header_Get (writer_header (writer_after
        (NewCacheMiddleware Get (Some test_config) hello_handler (clock_at 16)
           store_rotten [] get_root))) ''X-Cache-Status'' = []
   \<and> Header_Get (writer_header (writer_after
        (NewCacheMiddleware Get (Some test_config) hello_handler (clock_at 16)
           (NewInMemoryQuotaLRU 1) [] get_root))) ''X-Cache-Status'' = ''MISS''"
  by code_simp

text \<open>
  C1 at a concrete request: with \<open>MaxBodyBytes = 4\<close> and a handler that writes the five
  bytes \<open>hello\<close> on the miss path, the client receives the four bytes \<open>hell\<close> (and
  nothing is stored): \<open>Flush\<close> delivers the recorder's buffer, which \<open>Write\<close> cut at
  the cap.
\<close>

theorem miss_path_truncates_client_body:
  "writer_body (writer_after
     (NewCacheMiddleware Get (Some test_config) hello_handler (clock_at 16)
        (NewInMemoryQuotaLRU 1) [] get_root)) = ''hell''
   \<and> spawned (NewCacheMiddleware Get (Some test_config) hello_handler (clock_at 16)
        (NewInMemoryQuotaLRU 1) [] get_root) = []"
  by code_simp

text \<open>
  What \<open>Write\<close> does to the buffer and the over-capacity mark under a positive cap, and
  that neither the miss path nor the background refresh hands an over-capacity capture to
  the store.
\<close>

lemma Write_buffers_up_to_cap:
  assumes "0 < maxBytes_rec r"
  shows "body (snd (Write r p))
           = body r @ take (nat (maxBytes_rec r - int (length (body r)))) p"
    and "capReached (snd (Write r p)) \<longleftrightarrow>
           capReached r \<or> maxBytes_rec r - int (length (body r)) < int (length p)
           \<or> maxBytes_rec r \<le> int (length (body r))"
    and "snd (fst (Write r p)) = None"
  using assms by (auto simp: Write_def Let_def)

lemma over_capacity_never_stored:
  assumes "capReached (snd (ServeHTTP_recorder (handler req) (NewResponseRecorder (MaxBodyBytes cfg))))"
  shows "refresh cfg handler now cacheKey req = None"
    and "snd (serve_miss cfg handler clock cacheKey w req) = []"
  using assms by (auto simp: refresh_def serve_miss_def Let_def split: prod.splits)

text \<open>
  C5 at a concrete write: on a recorder with cap 4, \<open>Write\<close> of the five bytes
  \<open>hello\<close> buffers \<open>hell\<close>, marks the recorder over-capacity and returns the count 4,
  not 5; only a later write, made when nothing remains of the cap, reports its full
  length.
\<close>

theorem Write_reports_short_count:
  "fst (Write (NewResponseRecorder 4) ''hello'') = (4, None)
   \<and> body (snd (Write (NewResponseRecorder 4) ''hello'')) = ''hell''
   \<and> capReached (snd (Write (NewResponseRecorder 4) ''hello''))
   \<and> fst (Write (snd (Write (NewResponseRecorder 4) ''hello'')) ''!'') = (1, None)"
  by code_simp

lemma TrimSpace_unicode:
  "TrimSpace ([CHR 0xC2, CHR 0xA0] @ '' X-Custom'' @ [CHR 0x09, CHR 0xE3, CHR 0x80, CHR 0x80])
     = ''X-Custom''"
  by code_simp

text \<open>
  C9 at a concrete header: \<open>Connection\<close> has the two values \<open>close\<close> and \<open>X-Custom\<close>.
  The sanitizer reads the first value only (\<open>Header.Get\<close>), so \<open>X-Custom\<close>, named in
  the second value, is kept; named in the first value, it is removed.
\<close>

theorem stripHopByHop_second_Connection_value:
  "stripHopByHop two_connection_values = [(''X-Custom'', [''1''])]
   \<and> stripHopByHop [(''Connection'', [''close, X-Custom'']), (''X-Custom'', [''1''])] = []"
  by code_simp

lemma recorder_call_status:
  "(\<forall>s. c \<noteq> WriteHeaderCall s) \<Longrightarrow> status (recorder_call r c) = status r"
  by (cases c) (simp_all add: Write_def Let_def)

lemma ServeHTTP_recorder_status:
  "(\<forall>s. Do (WriteHeaderCall s) \<notin> set steps) \<Longrightarrow>
     status (snd (ServeHTTP_recorder steps r)) = status r"
proof (induction steps r rule: ServeHTTP_recorder.induct)
  case (3 c cs r)
  then have "\<forall>s. c \<noteq> WriteHeaderCall s" by auto
  from recorder_call_status [OF this] 3 show ?case by simp
qed simp_all

text \<open>
  C7: for a recorder in any state a handler can leave it in (any calls on a new recorder
  with any cap) and any writer: the first \<open>Flush\<close> makes, after the calls already made on
  the writer, one \<open>Header().Add\<close> per recorded header value, then \<open>WriteHeader\<close> with
  the recorded status, then \<open>Write\<close> with the recorded body (no \<open>Write\<close> for an empty
  body); every later \<open>Flush\<close>, whatever the handler did in between, changes neither the
  writer nor the recorder; and when the handler made no \<open>WriteHeader\<close> call the status
  delivered is 200.
\<close>

theorem Flush_delivers_once:
  "let r = snd (ServeHTTP_recorder steps (NewResponseRecorder maxBodyBytes));
       r1 = fst (Flush r dest)
   in snd (Flush r dest)
        = dest @ concat (map (\<lambda>(k, vv). map (HeaderAdd k) vv) (header r))
               @ [WriteHeaderCall (status r)]
               @ (if body r = [] then [] else [WriteCall (body r)])
      \<and> (\<forall>more d. Flush (snd (ServeHTTP_recorder more r1)) d = (snd (ServeHTTP_recorder more r1), d))
      \<and> ((\<forall>s. Do (WriteHeaderCall s) \<notin> set steps) \<longrightarrow> status r = 200)"
proof -
  define r where "r = snd (ServeHTTP_recorder steps (NewResponseRecorder maxBodyBytes))"
  have nw: "\<not> written r"
    by (simp add: r_def ServeHTTP_recorder_written NewResponseRecorder_def)
  have first: "snd (Flush r dest)
        = dest @ concat (map (\<lambda>(k, vv). map (HeaderAdd k) vv) (header r))
               @ [WriteHeaderCall (status r)]
               @ (if body r = [] then [] else [WriteCall (body r)])"
    using nw by (simp add: Flush_def Let_def Header_Clone_def)
  have "written (fst (Flush r dest))" using nw by (simp add: Flush_def Let_def)
  then have later: "Flush (snd (ServeHTTP_recorder more (fst (Flush r dest)))) d
                      = (snd (ServeHTTP_recorder more (fst (Flush r dest))), d)" for more d
    by (simp add: Flush_def ServeHTTP_recorder_written)
  have st: "status r = 200" if "\<forall>s. Do (WriteHeaderCall s) \<notin> set steps"
    using ServeHTTP_recorder_status [OF that] by (simp add: r_def NewResponseRecorder_def)
  show ?thesis unfolding Let_def r_def [symmetric] using first later st by blast
qed

theorem Flush_delivers_once_witness:
  "(\<forall>s. Do (WriteHeaderCall s) \<notin> set (header_handler get_root))
   \<and> snd (Flush (snd (ServeHTTP_recorder (header_handler get_root) (NewResponseRecorder 0))) [])
       = [HeaderAdd ''Content-Type'' ''text/plain'', WriteHeaderCall 200, WriteCall ''hi'']
   \<and> Flush (fst (Flush (snd (ServeHTTP_recorder (header_handler get_root) (NewResponseRecorder 0))) []))
        [WriteCall ''x'']
       = (fst (Flush (snd (ServeHTTP_recorder (header_handler get_root) (NewResponseRecorder 0))) []),
          [WriteCall ''x''])"
proof -
  have h: "\<forall>s. Do (WriteHeaderCall s) \<notin> set (header_handler get_root)"
    by (simp add: header_handler_def)
  have e: "header (snd (ServeHTTP_recorder (header_handler get_root) (NewResponseRecorder 0)))
             = [(''Content-Type'', [''text/plain''])]"
    "body (snd (ServeHTTP_recorder (header_handler get_root) (NewResponseRecorder 0))) = ''hi''"
    by code_simp+
  note t = Flush_delivers_once [of "header_handler get_root" 0 "[]", unfolded Let_def]
  from t h have s: "status (snd (ServeHTTP_recorder (header_handler get_root) (NewResponseRecorder 0))) = 200"
    by blast
  from t have l: "Flush (snd (ServeHTTP_recorder [] (fst (Flush (snd (ServeHTTP_recorder (header_handler get_root) (NewResponseRecorder 0))) [])))) [WriteCall ''x'']
      = (snd (ServeHTTP_recorder [] (fst (Flush (snd (ServeHTTP_recorder (header_handler get_root) (NewResponseRecorder 0))) []))), [WriteCall ''x''])"
    by blast
  from t have f: "snd (Flush (snd (ServeHTTP_recorder (header_handler get_root) (NewResponseRecorder 0))) [])
     = [] @ concat (map (\<lambda>(k, vv). map (HeaderAdd k) vv) (header (snd (ServeHTTP_recorder (header_handler get_root) (NewResponseRecorder 0)))))
               @ [WriteHeaderCall (status (snd (ServeHTTP_recorder (header_handler get_root) (NewResponseRecorder 0))))]
               @ (if body (snd (ServeHTTP_recorder (header_handler get_root) (NewResponseRecorder 0))) = [] then [] else [WriteCall (body (snd (ServeHTTP_recorder (header_handler get_root) (NewResponseRecorder 0))))])"
    by blast
  show ?thesis using h l f by (simp add: e s)
qed

end
